theory Spec2Isabelle
  imports Complex_Main "HOL-Library.AList"
begin

section \<open>The state of the App component\<close>

text \<open>
  The model follows \<^verbatim>\<open>src/vocal-harmony/src/App.jsx\<close>. The component keeps the
  recording (\<^verbatim>\<open>audioBlob\<close>), the selected pitches (\<^verbatim>\<open>activePitches\<close>, a JavaScript
  \<^verbatim>\<open>Set\<close>) and the players (\<^verbatim>\<open>pitchPlayersRef.current\<close>, a JavaScript \<^verbatim>\<open>Map\<close>
  from a pitch to \<^verbatim>\<open>{ player, pitchShift }\<close>).

  A JavaScript \<^verbatim>\<open>Set\<close> and \<^verbatim>\<open>Map\<close> iterate in insertion order, and both loops of
  \<^verbatim>\<open>playRecording\<close> iterate. The selection is therefore a list without repetition and
  the player map an association list; \<^verbatim>\<open>Map.set\<close> is \<^const>\<open>AList.update\<close> (replace in
  place, or append), \<^verbatim>\<open>Map.delete\<close> is \<^const>\<open>AList.delete\<close>, \<^verbatim>\<open>Map.has\<close> and
  \<^verbatim>\<open>Map.get\<close> are \<^const>\<open>map_of\<close>.

  The objects of Tone.js are outside the repository. Each \<^verbatim>\<open>Tone.Player\<close> and
  \<^verbatim>\<open>Tone.PitchShift\<close> gets a fresh identity, and every call the component makes on the
  library is appended to a log, so that "created", "loaded", "started" and "disposed" are
  facts about the log. Three outcomes of the library decide the control flow of the
  component, and all three are part of the model:
  \<^item> \<^verbatim>\<open>player.load(url)\<close> returns a promise that is rejected when the recording cannot
    be decoded; the \<^verbatim>\<open>await\<close> then throws, and the rest of the handler is skipped.
    Whether a recording decodes is a property of the recording (\<open>decodable\<close>).
  \<^item> \<^verbatim>\<open>player.start(t)\<close> on a player whose buffer was never loaded throws, after the
    player has taken note of the start (\<open>failed_start\<close>).
  \<^item> \<^verbatim>\<open>player.dispose()\<close> on a player with such a failed start throws.
  Every other call on the library returns normally, \<^verbatim>\<open>await Tone.start()\<close> included.
  Tone also refuses to start a playing player again at a time that is not later than its
  last start; the model lets such a start succeed, so what is proved of a fulfilled play
  covers at least the runs of the code.
  \<^verbatim>\<open>URL.createObjectURL\<close> has no effect on the state kept here and is left out.

  The handlers are \<^verbatim>\<open>async\<close>; a run of the model takes each handler to its end
  (fulfilled or rejected) before the next event, with the component rendered again in
  between. A handler suspended at its \<^verbatim>\<open>await\<close> is treated in a section of its own.
\<close>

type_synonym time = rat

datatype blob = Blob (blob_id: nat) (decodable: bool)

datatype wiring = Unconnected | Destination | Into nat

record tone_player =
  pid :: nat
  buffer :: "blob option"
  out :: wiring
  failed_start :: bool

record tone_pitchShift =
  sid :: nat
  pitch :: int
  windowSize :: rat
  delayTime :: rat
  shift_out :: wiring

record chain =
  player :: tone_player
  pitchShift :: tone_pitchShift

datatype event =
    Tone_start
  | Tone_now time
  | New_Player nat
  | New_PitchShift nat int
  | Load nat blob
  | Start nat time
  | Dispose_Player nat
  | Dispose_PitchShift nat

record app =
  isRecording :: bool
  audioBlob :: "blob option"
  activePitches :: "int list"
  pitchPlayers :: "(int \<times> chain) list"
  next_id :: nat
  log :: "event list"

datatype error = LoadError | NotLoadedError | DisposeError

text \<open>
  The result of an \<^verbatim>\<open>async\<close> handler: the promise is fulfilled or rejected, and in both
  cases the mutations made before that point stay.
\<close>

datatype outcome = Fulfilled app | Rejected error app

fun state_of :: "outcome \<Rightarrow> app" where
  "state_of (Fulfilled s) = s"
| "state_of (Rejected e s) = s"

fun is_rejected :: "outcome \<Rightarrow> bool" where
  "is_rejected (Fulfilled s) = False"
| "is_rejected (Rejected e s) = True"

text \<open>Lines 5 to 11: no recording, pitch 0 selected, no players.\<close>

definition App_init :: app where
  "App_init = \<lparr>isRecording = False, audioBlob = None, activePitches = [0],
     pitchPlayers = [], next_id = 0, log = []\<rparr>"

text \<open>\<^verbatim>\<open>Set.add\<close>: a new member goes to the end of the iteration order.\<close>

definition set_add :: "int list \<Rightarrow> int \<Rightarrow> int list" where
  "set_add xs p = (if p \<in> set xs then xs else xs @ [p])"

section \<open>getIntervalStyle\<close>

text \<open>Lines 14 to 34. The result is the CSS class string of the button.\<close>

definition getIntervalStyle :: "int \<Rightarrow> string" where
  "getIntervalStyle p =
     (if p = 0 then ''bg-white hover:bg-gray-200''
      else let absValue = \<bar>p\<bar> in
        if absValue \<in> {4, 7, 12} then ''bg-blue-300 hover:bg-blue-400 text-blue-900''
        else if absValue \<in> {3, 5, 8, 9} then ''bg-blue-100 hover:bg-blue-200 text-blue-900''
        else ''bg-red-100 hover:bg-red-200 text-red-900'')"

text \<open>
  The categories are named by the comments of the function and by the legend of the page
  (lines 216 to 228): the white button is the original pitch, \<^verbatim>\<open>bg-blue-300\<close> the
  "Perfect consonances (darker blue)", \<^verbatim>\<open>bg-blue-100\<close> the "Imperfect consonances
  (lighter blue)", \<^verbatim>\<open>bg-red-100\<close> the "Dissonant intervals (red tint)".
\<close>

datatype interval_class = Original | Perfect_consonance | Imperfect_consonance | Dissonant

definition class_of_style :: "string \<Rightarrow> interval_class option" where
  "class_of_style st =
     (if st = ''bg-white hover:bg-gray-200'' then Some Original
      else if st = ''bg-blue-300 hover:bg-blue-400 text-blue-900'' then Some Perfect_consonance
      else if st = ''bg-blue-100 hover:bg-blue-200 text-blue-900'' then Some Imperfect_consonance
      else if st = ''bg-red-100 hover:bg-red-200 text-red-900'' then Some Dissonant
      else None)"

section \<open>Recording\<close>

text \<open>
  Lines 53 to 83. \<^verbatim>\<open>startRecording\<close> catches a refused microphone and changes nothing
  then. \<^verbatim>\<open>stopRecording\<close> acts only while recording (the recorder of line 78 exists
  whenever \<^verbatim>\<open>isRecording\<close> is set, by lines 56 and 71); the \<^verbatim>\<open>onstop\<close> callback stores
  the blob assembled from the chunks, which is an input of the model. Empty chunks are
  skipped (line 60), so the blob may hold nothing to decode, and it is stored all the same:
  a blob object is truthy whatever its size.
\<close>

definition startRecording :: "app \<Rightarrow> bool \<Rightarrow> app" where
  "startRecording s granted = (if granted then s\<lparr>isRecording := True\<rparr> else s)"

definition stopRecording :: "app \<Rightarrow> blob \<Rightarrow> app" where
  "stopRecording s b =
     (if isRecording s then s\<lparr>isRecording := False, audioBlob := Some b\<rparr> else s)"

section \<open>setupPitchPlayer, togglePitch, playRecording\<close>

text \<open>
  Lines 107 to 124. The player is created connected to the destination, disconnected, and
  connected to the new pitch shifter; the pair is stored under the pitch before the load
  is awaited, so a rejected load leaves the pair in the map.
\<close>

definition setupPitchPlayer :: "app \<Rightarrow> int \<Rightarrow> outcome" where
  "setupPitchPlayer s p =
     (let pl0 = \<lparr>pid = next_id s, buffer = None, out = Destination, failed_start = False\<rparr>;
          ps = \<lparr>sid = Suc (next_id s), pitch = p, windowSize = 1 / 10, delayTime = 0,
                shift_out = Destination\<rparr>;
          pl1 = pl0\<lparr>out := Unconnected\<rparr>;
          pl = pl1\<lparr>out := Into (sid ps)\<rparr>;
          s1 = s\<lparr>pitchPlayers := AList.update p \<lparr>player = pl, pitchShift = ps\<rparr> (pitchPlayers s),
                 next_id := next_id s + 2,
                 log := log s @ [New_Player (pid pl), New_PitchShift (sid ps) p]\<rparr>
      in case audioBlob s of
           None \<Rightarrow> Fulfilled s1
         | Some b \<Rightarrow>
             (let s2 = s1\<lparr>log := log s1 @ [Load (pid pl) b]\<rparr>
              in if decodable b
                 then Fulfilled (s2\<lparr>pitchPlayers :=
                        AList.update p \<lparr>player = pl\<lparr>buffer := Some b\<rparr>, pitchShift = ps\<rparr>
                          (pitchPlayers s2)\<rparr>)
                 else Rejected LoadError s2))"

text \<open>
  Lines 91 to 96, the cleanup inside \<^verbatim>\<open>togglePitch\<close>: dispose the player and the pitch
  shifter of a registered pitch and delete the entry. When \<^verbatim>\<open>player.dispose()\<close> throws
  (line 93), lines 94 and 95 are not reached.
\<close>

definition release :: "app \<Rightarrow> int \<Rightarrow> outcome" where
  "release s p =
     (case map_of (pitchPlayers s) p of
        None \<Rightarrow> Fulfilled s
      | Some c \<Rightarrow>
          (let s1 = s\<lparr>log := log s @ [Dispose_Player (pid (player c))]\<rparr>
           in if failed_start (player c) then Rejected DisposeError s1
              else Fulfilled (s1\<lparr>pitchPlayers := AList.delete p (pitchPlayers s1),
                     log := log s1 @ [Dispose_PitchShift (sid (pitchShift c))]\<rparr>)))"

text \<open>
  Lines 135 to 137 (and the second conjunct of line 99 with line 100): set a pitch up
  unless the map has it.
\<close>

definition ensure :: "app \<Rightarrow> int \<Rightarrow> outcome" where
  "ensure s p =
     (if map_of (pitchPlayers s) p = None then setupPitchPlayer s p else Fulfilled s)"

text \<open>
  Lines 85 to 105. \<^verbatim>\<open>setActivePitches\<close> is the last statement: it is not reached when
  the awaited set-up is rejected or the dispose throws.
\<close>

definition togglePitch :: "app \<Rightarrow> int \<Rightarrow> outcome" where
  "togglePitch s p =
     (if p \<in> set (activePitches s)
      then (case release s p of
              Fulfilled s1 \<Rightarrow> Fulfilled (s1\<lparr>activePitches := removeAll p (activePitches s)\<rparr>)
            | Rejected e s1 \<Rightarrow> Rejected e s1)
      else if audioBlob s \<noteq> None
      then (case ensure s p of
              Fulfilled s1 \<Rightarrow> Fulfilled (s1\<lparr>activePitches := set_add (activePitches s) p\<rparr>)
            | Rejected e s1 \<Rightarrow> Rejected e s1)
      else Fulfilled (s\<lparr>activePitches := set_add (activePitches s) p\<rparr>))"

text \<open>Lines 134 to 138: the loop over the selection, left at the first rejection.\<close>

fun ensure_all :: "app \<Rightarrow> int list \<Rightarrow> outcome" where
  "ensure_all s [] = Fulfilled s"
| "ensure_all s (p # ps) =
     (case ensure s p of
        Fulfilled s1 \<Rightarrow> ensure_all s1 ps
      | Rejected e s1 \<Rightarrow> Rejected e s1)"

text \<open>
  Lines 144 to 146: \<^verbatim>\<open>forEach\<close> over the map, in its order. A start on a player
  without a buffer throws, which leaves the \<^verbatim>\<open>forEach\<close>; the player, an object of the
  map, keeps the mark of the failed start.
\<close>

fun start_all :: "time \<Rightarrow> (int \<times> chain) list \<Rightarrow> app \<Rightarrow> outcome" where
  "start_all t [] s = Fulfilled s"
| "start_all t (kc # cs) s =
     (let s1 = s\<lparr>log := log s @ [Start (pid (player (snd kc))) t]\<rparr>
      in if buffer (player (snd kc)) = None
         then Rejected NotLoadedError
                (s1\<lparr>pitchPlayers :=
                   AList.update (fst kc)
                     ((snd kc)\<lparr>player := (player (snd kc))\<lparr>failed_start := True\<rparr>\<rparr>)
                     (pitchPlayers s1)\<rparr>)
         else start_all t cs s1)"

text \<open>
  Lines 126 to 148. Without a recording the body is skipped and the handler returns.
  \<^verbatim>\<open>Tone.now()\<close> reads the audio clock once; its value is the argument \<open>now\<close>.
\<close>

definition playRecording :: "app \<Rightarrow> time \<Rightarrow> outcome" where
  "playRecording s now =
     (case audioBlob s of
        None \<Rightarrow> Fulfilled s
      | Some b \<Rightarrow>
          (case ensure_all (s\<lparr>log := log s @ [Tone_start]\<rparr>) (activePitches s) of
             Rejected e s1 \<Rightarrow> Rejected e s1
           | Fulfilled s1 \<Rightarrow>
               start_all now (pitchPlayers s1) (s1\<lparr>log := log s1 @ [Tone_now now]\<rparr>)))"

section \<open>Sequences of user actions\<close>

datatype action =
    StartRecording bool
  | StopRecording blob
  | TogglePitch int
  | PlayRecording time

fun step :: "app \<Rightarrow> action \<Rightarrow> app" where
  "step s (StartRecording granted) = startRecording s granted"
| "step s (StopRecording b) = stopRecording s b"
| "step s (TogglePitch p) = state_of (togglePitch s p)"
| "step s (PlayRecording t) = state_of (playRecording s t)"

definition run :: "app \<Rightarrow> action list \<Rightarrow> app" where
  "run s acts = foldl step s acts"

text \<open>
  A captured recording decodes or not; an action is harmless in that respect unless it
  stores an undecodable recording.
\<close>

fun capture_decodable :: "action \<Rightarrow> bool" where
  "capture_decodable (StopRecording b) = decodable b"
| "capture_decodable a = True"

definition loads_ok :: "app \<Rightarrow> bool" where
  "loads_ok s = (case audioBlob s of None \<Rightarrow> True | Some b \<Rightarrow> decodable b)"

section \<open>Handlers interrupted at an await\<close>

text \<open>
  \<^verbatim>\<open>setupPitchPlayer\<close> has one \<^verbatim>\<open>await\<close>, at line 122. \<open>setup_begin\<close> is the handler up
  to there: the chain is created and stored and load has been called. \<open>load_done\<close> is the
  settling of that load for the player \<open>i\<close> stored under \<open>p\<close>: a load that succeeds binds the
  buffer to its player, which the component can reach through the map only; a load that
  fails rejects. With nothing in between, the two make \<^const>\<open>setupPitchPlayer\<close>.
\<close>

definition setup_begin :: "app \<Rightarrow> int \<Rightarrow> app" where
  "setup_begin s p =
     s\<lparr>pitchPlayers :=
         AList.update p
           \<lparr>player = \<lparr>pid = next_id s, buffer = None, out = Into (Suc (next_id s)),
                       failed_start = False\<rparr>,
            pitchShift = \<lparr>sid = Suc (next_id s), pitch = p, windowSize = 1 / 10,
                           delayTime = 0, shift_out = Destination\<rparr>\<rparr>
           (pitchPlayers s),
       next_id := next_id s + 2,
       log := log s @ [New_Player (next_id s), New_PitchShift (Suc (next_id s)) p] @
                (case audioBlob s of None \<Rightarrow> [] | Some b \<Rightarrow> [Load (next_id s) b])\<rparr>"

definition load_done :: "app \<Rightarrow> int \<Rightarrow> nat \<Rightarrow> blob \<Rightarrow> outcome" where
  "load_done s p i b =
     (if decodable b
      then Fulfilled
             (case map_of (pitchPlayers s) p of
                None \<Rightarrow> s
              | Some c \<Rightarrow>
                  if pid (player c) = i
                  then s\<lparr>pitchPlayers :=
                         AList.update p (c\<lparr>player := (player c)\<lparr>buffer := Some b\<rparr>\<rparr>)
                           (pitchPlayers s)\<rparr>
                  else s)
      else Rejected LoadError s)"

text \<open>
  The rest of \<^verbatim>\<open>playRecording\<close> from inside its loop (lines 134 to 146), for the pitches
  \<open>ps\<close> the loop has still to visit.
\<close>

definition play_rest :: "app \<Rightarrow> int list \<Rightarrow> time \<Rightarrow> outcome" where
  "play_rest s ps now =
     (case ensure_all s ps of
        Rejected e s1 \<Rightarrow> Rejected e s1
      | Fulfilled s1 \<Rightarrow>
          start_all now (pitchPlayers s1) (s1\<lparr>log := log s1 @ [Tone_now now]\<rparr>))"


section \<open>The player map as a registry\<close>

text \<open>
  The specification speaks of a registry with the operations \<open>ensure\<close> and \<open>release\<close>.
  In the source they are the two fragments \<^const>\<open>ensure\<close> and \<^const>\<open>release\<close> above;
  a sequence of them runs on the component as it is mounted, with or without a recording.
\<close>

datatype registry_op = Ensure int | Release int

fun registry_step :: "app \<Rightarrow> registry_op \<Rightarrow> app" where
  "registry_step s (Ensure p) = state_of (ensure s p)"
| "registry_step s (Release p) = state_of (release s p)"

definition run_registry :: "blob option \<Rightarrow> registry_op list \<Rightarrow> app" where
  "run_registry ab ops = foldl registry_step (App_init\<lparr>audioBlob := ab\<rparr>) ops"

text \<open>
  The specification's own description of the live chains, word for word: the offsets "for
  which ensure was most recently called without an intervening release", that is, some
  call of ensure for the offset is followed by no release of it.
\<close>

definition live_spec :: "registry_op list \<Rightarrow> int \<Rightarrow> bool" where
  "live_spec ops p =
     (\<exists>i < length ops. ops ! i = Ensure p \<and> Release p \<notin> set (drop (Suc i) ops))"

section \<open>Reading the log\<close>

fun is_Start :: "event \<Rightarrow> bool" where
  "is_Start (Start i t) = True"
| "is_Start e = False"

fun is_Tone_now :: "event \<Rightarrow> bool" where
  "is_Tone_now (Tone_now t) = True"
| "is_Tone_now e = False"



text \<open>The calls made between two states of one run.\<close>

definition new_events :: "app \<Rightarrow> app \<Rightarrow> event list" where
  "new_events s s' = drop (length (log s)) (log s')"

text \<open>The players and the pitch shifters the map holds.\<close>

definition player_ids :: "app \<Rightarrow> nat list" where
  "player_ids s = map (\<lambda>kc. pid (player (snd kc))) (pitchPlayers s)"

definition shifter_ids :: "app \<Rightarrow> nat list" where
  "shifter_ids s = map (\<lambda>kc. sid (pitchShift (snd kc))) (pitchPlayers s)"

section \<open>Normal forms and invariants used in the proofs\<close>

definition new_chain :: "app \<Rightarrow> int \<Rightarrow> chain" where
  "new_chain s p =
     \<lparr>player = \<lparr>pid = next_id s,
                 buffer = (case audioBlob s of None \<Rightarrow> None
                           | Some b \<Rightarrow> if decodable b then Some b else None),
                 out = Into (Suc (next_id s)), failed_start = False\<rparr>,
      pitchShift = \<lparr>sid = Suc (next_id s), pitch = p, windowSize = 1 / 10, delayTime = 0,
                    shift_out = Destination\<rparr>\<rparr>"

definition setup_events :: "app \<Rightarrow> int \<Rightarrow> event list" where
  "setup_events s p =
     [New_Player (next_id s), New_PitchShift (Suc (next_id s)) p] @
     (case audioBlob s of None \<Rightarrow> [] | Some b \<Rightarrow> [Load (next_id s) b])"

definition set_up :: "app \<Rightarrow> int \<Rightarrow> app" where
  "set_up s p =
     s\<lparr>pitchPlayers := AList.update p (new_chain s p) (pitchPlayers s),
       next_id := next_id s + 2,
       log := log s @ setup_events s p\<rparr>"

definition quiet :: "event list \<Rightarrow> bool" where
  "quiet evs = (filter is_Start evs = [] \<and> filter is_Tone_now evs = [])"

definition starts :: "time \<Rightarrow> (int \<times> chain) list \<Rightarrow> event list" where
  "starts t cs = map (\<lambda>kc. Start (pid (player (snd kc))) t) cs"

text \<open>Keys without repetition and chains made for their key.\<close>

definition keyed :: "(int \<times> chain) list \<Rightarrow> bool" where
  "keyed m = (distinct (map fst m) \<and> (\<forall>(k, c) \<in> set m. pitch (pitchShift c) = k))"

definition reconciled :: "app \<Rightarrow> bool" where
  "reconciled s = (fst ` set (pitchPlayers s) \<subseteq> set (activePitches s))"

text \<open>Every chain of the map is loaded and has no failed start.\<close>

definition healthy :: "app \<Rightarrow> bool" where
  "healthy s =
     (\<forall>k c. map_of (pitchPlayers s) k = Some c \<longrightarrow>
        buffer (player c) \<noteq> None \<and> \<not> failed_start (player c))"

text \<open>The identities of the map are older than the next one.\<close>

definition ids_below :: "app \<Rightarrow> bool" where
  "ids_below s =
     (\<forall>(k, c) \<in> set (pitchPlayers s).
        pid (player c) < next_id s \<and> sid (pitchShift c) < next_id s)"



text \<open>
  Invariants of the registry: what was created is older than the next identity; a
  registered chain was created for its key, load was called on it, and it has no failed
  start; two keys share no object; and the accounts of the log are settled, every object
  created once at most, and disposed once if it was created and is out of the map, never
  otherwise.
\<close>

definition inv_made :: "app \<Rightarrow> bool" where
  "inv_made s =
     (\<forall>i. New_Player i \<in> set (log s) \<or> (\<exists>k. New_PitchShift i k \<in> set (log s)) \<longrightarrow>
          i < next_id s)"

definition inv_chains :: "app \<Rightarrow> bool" where
  "inv_chains s =
     (\<forall>k c. map_of (pitchPlayers s) k = Some c \<longrightarrow>
        New_Player (pid (player c)) \<in> set (log s) \<and>
        New_PitchShift (sid (pitchShift c)) k \<in> set (log s) \<and>
        pitch (pitchShift c) = k \<and> \<not> failed_start (player c) \<and>
        (\<forall>b. audioBlob s = Some b \<longrightarrow>
           Load (pid (player c)) b \<in> set (log s) \<and>
           (decodable b \<longrightarrow> buffer (player c) = Some b)))"

definition inv_unique :: "app \<Rightarrow> bool" where
  "inv_unique s =
     (\<forall>k k' c c'. map_of (pitchPlayers s) k = Some c \<and> map_of (pitchPlayers s) k' = Some c' \<and>
        k \<noteq> k' \<longrightarrow>
        pid (player c) \<noteq> pid (player c') \<and> sid (pitchShift c) \<noteq> sid (pitchShift c'))"

definition holds_player :: "app \<Rightarrow> nat \<Rightarrow> bool" where
  "holds_player s i = (\<exists>k c. map_of (pitchPlayers s) k = Some c \<and> pid (player c) = i)"

definition holds_shifter :: "app \<Rightarrow> nat \<Rightarrow> bool" where
  "holds_shifter s i = (\<exists>k c. map_of (pitchPlayers s) k = Some c \<and> sid (pitchShift c) = i)"

definition inv_count :: "app \<Rightarrow> bool" where
  "inv_count s =
     (\<forall>i. count_list (log s) (New_Player i) \<le> 1 \<and>
          count_list (log s) (Dispose_Player i) =
            (if New_Player i \<in> set (log s) \<and> \<not> holds_player s i then 1 else 0) \<and>
          count_list (log s) (Dispose_PitchShift i) =
            (if (\<exists>k. New_PitchShift i k \<in> set (log s)) \<and> \<not> holds_shifter s i then 1 else 0))"

definition registry_inv :: "app \<Rightarrow> bool" where
  "registry_inv s =
     (distinct (map fst (pitchPlayers s)) \<and> inv_made s \<and> inv_chains s \<and> inv_unique s \<and>
      inv_count s)"

section \<open>Lemmas\<close>

subsection \<open>Normal forms of the handlers\<close>

lemma setupPitchPlayer_eq:
  "setupPitchPlayer s p =
     (if loads_ok s then Fulfilled (set_up s p) else Rejected LoadError (set_up s p))"
  by (simp add: setupPitchPlayer_def loads_ok_def set_up_def new_chain_def setup_events_def
      Let_def split: option.split)

lemma setupPitchPlayer_split:
  "setupPitchPlayer s p =
     (case audioBlob s of
        None \<Rightarrow> Fulfilled (setup_begin s p)
      | Some b \<Rightarrow> load_done (setup_begin s p) p (next_id s) b)"
  by (simp add: setupPitchPlayer_def setup_begin_def load_done_def Let_def update_conv'
      split: option.split)

lemma ensure_eq:
  "ensure s p =
     (if map_of (pitchPlayers s) p \<noteq> None then Fulfilled s
      else if loads_ok s then Fulfilled (set_up s p)
      else Rejected LoadError (set_up s p))"
  by (simp add: ensure_def setupPitchPlayer_eq)

lemma set_up_fields [simp]:
  "audioBlob (set_up s p) = audioBlob s"
  "activePitches (set_up s p) = activePitches s"
  "isRecording (set_up s p) = isRecording s"
  "next_id (set_up s p) = next_id s + 2"
  "log (set_up s p) = log s @ setup_events s p"
  "pitchPlayers (set_up s p) = AList.update p (new_chain s p) (pitchPlayers s)"
  by (simp_all add: set_up_def)

lemma loads_ok_set_up [simp]: "loads_ok (set_up s p) = loads_ok s"
  by (simp add: loads_ok_def)

lemma release_fields [simp]:
  "audioBlob (state_of (release s p)) = audioBlob s"
  "activePitches (state_of (release s p)) = activePitches s"
  "isRecording (state_of (release s p)) = isRecording s"
  "next_id (state_of (release s p)) = next_id s"
  by (simp_all add: release_def Let_def split: option.split)

lemma release_None: "map_of (pitchPlayers s) p = None \<Longrightarrow> release s p = Fulfilled s"
  by (simp add: release_def)

lemma release_Some:
  "map_of (pitchPlayers s) p = Some c \<Longrightarrow>
   release s p =
     (if failed_start (player c)
      then Rejected DisposeError (s\<lparr>log := log s @ [Dispose_Player (pid (player c))]\<rparr>)
      else Fulfilled (s\<lparr>pitchPlayers := AList.delete p (pitchPlayers s),
             log := log s @ [Dispose_Player (pid (player c)),
                             Dispose_PitchShift (sid (pitchShift c))]\<rparr>))"
  by (simp add: release_def Let_def)

lemma loads_ok_release [simp]: "loads_ok (state_of (release s p)) = loads_ok s"
  by (simp add: loads_ok_def)

lemma togglePitch_on:
  "p \<notin> set (activePitches s) \<Longrightarrow>
   togglePitch s p =
     (if audioBlob s = None \<or> map_of (pitchPlayers s) p \<noteq> None
      then Fulfilled (s\<lparr>activePitches := activePitches s @ [p]\<rparr>)
      else if loads_ok s
      then Fulfilled ((set_up s p)\<lparr>activePitches := activePitches s @ [p]\<rparr>)
      else Rejected LoadError (set_up s p))"
  by (simp add: togglePitch_def set_add_def ensure_eq)

lemma togglePitch_off:
  "p \<in> set (activePitches s) \<Longrightarrow>
   togglePitch s p =
     (case map_of (pitchPlayers s) p of
        None \<Rightarrow> Fulfilled (s\<lparr>activePitches := removeAll p (activePitches s)\<rparr>)
      | Some c \<Rightarrow>
          if failed_start (player c)
          then Rejected DisposeError (s\<lparr>log := log s @ [Dispose_Player (pid (player c))]\<rparr>)
          else Fulfilled (s\<lparr>pitchPlayers := AList.delete p (pitchPlayers s),
                 log := log s @ [Dispose_Player (pid (player c)),
                                 Dispose_PitchShift (sid (pitchShift c))],
                 activePitches := removeAll p (activePitches s)\<rparr>))"
  by (simp add: togglePitch_def release_def Let_def split: option.split)

lemma ensure_fields [simp]:
  "audioBlob (state_of (ensure s p)) = audioBlob s"
  "activePitches (state_of (ensure s p)) = activePitches s"
  "isRecording (state_of (ensure s p)) = isRecording s"
  by (simp_all add: ensure_eq)

lemma loads_ok_ensure [simp]: "loads_ok (state_of (ensure s p)) = loads_ok s"
  by (simp add: loads_ok_def)

lemma ensure_keys:
  "fst ` set (pitchPlayers (state_of (ensure s p))) = insert p (fst ` set (pitchPlayers s))"
  by (auto simp: ensure_eq dom_update map_of_eq_None_iff)

lemma ensure_all_Cons:
  "ensure_all s (p # ps) =
     (if map_of (pitchPlayers s) p = None \<and> \<not> loads_ok s
      then Rejected LoadError (set_up s p)
      else ensure_all (state_of (ensure s p)) ps)"
  by (simp add: ensure_eq)

lemma ensure_all_fields [simp]:
  "audioBlob (state_of (ensure_all s ps)) = audioBlob s"
  "activePitches (state_of (ensure_all s ps)) = activePitches s"
  "isRecording (state_of (ensure_all s ps)) = isRecording s"
  by (induction ps arbitrary: s) (simp_all add: ensure_all_Cons del: ensure_all.simps(2))

lemma loads_ok_ensure_all [simp]: "loads_ok (state_of (ensure_all s ps)) = loads_ok s"
  by (simp add: loads_ok_def)

lemma ensure_all_keys_ok:
  "loads_ok s \<Longrightarrow>
   fst ` set (pitchPlayers (state_of (ensure_all s ps))) = fst ` set (pitchPlayers s) \<union> set ps"
  by (induction ps arbitrary: s) (simp_all add: ensure_all_Cons ensure_keys del: ensure_all.simps(2))

lemma ensure_all_ok:
  "loads_ok s \<Longrightarrow> ensure_all s ps = Fulfilled (state_of (ensure_all s ps))"
  by (induction ps arbitrary: s) (simp_all add: ensure_all_Cons del: ensure_all.simps(2))

lemma quiet_setup_events [simp]: "quiet (setup_events s p)"
  by (simp add: setup_events_def quiet_def split: option.split)

lemma ensure_log:
  "\<exists>evs. log (state_of (ensure s p)) = log s @ evs \<and> quiet evs"
proof (cases "map_of (pitchPlayers s) p = None")
  case True
  then have "log (state_of (ensure s p)) = log s @ setup_events s p"
    by (simp add: ensure_eq)
  then show ?thesis using quiet_setup_events by blast
next
  case False
  then have "log (state_of (ensure s p)) = log s @ []" by (simp add: ensure_eq)
  moreover have "quiet []" by (simp add: quiet_def)
  ultimately show ?thesis by blast
qed

lemma ensure_all_log:
  "\<exists>evs. log (state_of (ensure_all s ps)) = log s @ evs \<and> quiet evs"
proof (induction ps arbitrary: s)
  case Nil
  have "quiet []" by (simp add: quiet_def)
  then show ?case by simp
next
  case (Cons p ps)
  show ?case
  proof (cases "map_of (pitchPlayers s) p = None \<and> \<not> loads_ok s")
    case True
    then have "log (state_of (ensure_all s (p # ps))) = log s @ setup_events s p"
      by (simp add: ensure_all_Cons del: ensure_all.simps(2))
    then show ?thesis using quiet_setup_events by blast
  next
    case False
    obtain e1 where e1: "log (state_of (ensure s p)) = log s @ e1" "quiet e1"
      using ensure_log by blast
    obtain e2 where e2: "log (state_of (ensure_all (state_of (ensure s p)) ps)) =
        log (state_of (ensure s p)) @ e2" "quiet e2"
      using Cons by blast
    have "quiet (e1 @ e2)" using e1(2) e2(2) by (simp add: quiet_def)
    moreover have "ensure_all s (p # ps) = ensure_all (state_of (ensure s p)) ps"
      using False by (simp only: ensure_all_Cons if_False)
    then have "log (state_of (ensure_all s (p # ps))) = log s @ (e1 @ e2)"
      using e1(1) e2(1) by simp
    ultimately show ?thesis by blast
  qed
qed

lemma start_all_Fulfilled:
  "start_all t cs s = Fulfilled s' \<Longrightarrow> s' = s\<lparr>log := log s @ starts t cs\<rparr>"
proof (induction cs arbitrary: s)
  case Nil
  then show ?case by (simp add: starts_def)
next
  case (Cons kc cs)
  let ?s1 = "s\<lparr>log := log s @ [Start (pid (player (snd kc))) t]\<rparr>"
  from Cons.prems have "start_all t cs ?s1 = Fulfilled s'"
    by (simp add: Let_def split: if_splits)
  from Cons.IH [OF this] show ?case by (simp add: starts_def)
qed

lemma start_all_loaded:
  "\<forall>kc \<in> set cs. buffer (player (snd kc)) \<noteq> None \<Longrightarrow>
   start_all t cs s = Fulfilled (s\<lparr>log := log s @ starts t cs\<rparr>)"
  by (induction cs arbitrary: s) (auto simp: starts_def Let_def)

lemma start_all_fields [simp]:
  "audioBlob (state_of (start_all t cs s)) = audioBlob s"
  "activePitches (state_of (start_all t cs s)) = activePitches s"
  "isRecording (state_of (start_all t cs s)) = isRecording s"
  "next_id (state_of (start_all t cs s)) = next_id s"
  by (induction cs arbitrary: s) (simp_all add: Let_def)

lemma start_all_keys [simp]:
  "set cs \<subseteq> set (pitchPlayers s) \<Longrightarrow>
   fst ` set (pitchPlayers (state_of (start_all t cs s))) = fst ` set (pitchPlayers s)"
proof (induction cs arbitrary: s)
  case Nil
  show ?case by simp
next
  case (Cons kc cs)
  then have "fst kc \<in> fst ` set (pitchPlayers s)" by auto
  with Cons show ?case by (auto simp: Let_def dom_update)
qed

lemma ensure_keeps:
  "map_of (pitchPlayers s) k = Some c \<Longrightarrow> map_of (pitchPlayers (state_of (ensure s p))) k = Some c"
  by (auto simp: ensure_eq update_conv')

lemma ensure_all_keeps:
  "map_of (pitchPlayers s) k = Some c \<Longrightarrow>
   map_of (pitchPlayers (state_of (ensure_all s ps))) k = Some c"
proof (induction ps arbitrary: s)
  case Nil
  then show ?case by simp
next
  case (Cons p ps)
  show ?case
  proof (cases "map_of (pitchPlayers s) p = None \<and> \<not> loads_ok s")
    case True
    with Cons.prems show ?thesis
      by (auto simp: ensure_all_Cons update_conv' simp del: ensure_all.simps(2))
  next
    case False
    then have "ensure_all s (p # ps) = ensure_all (state_of (ensure s p)) ps"
      by (simp only: ensure_all_Cons if_False)
    with Cons.IH [OF ensure_keeps [OF Cons.prems]] show ?thesis by simp
  qed
qed

lemma ensure_all_Fulfilled_keys:
  "ensure_all s ps = Fulfilled s1 \<Longrightarrow>
   fst ` set (pitchPlayers s1) = fst ` set (pitchPlayers s) \<union> set ps"
proof (induction ps arbitrary: s)
  case Nil
  then show ?case by simp
next
  case (Cons p ps)
  from Cons.prems have "ensure_all (state_of (ensure s p)) ps = Fulfilled s1"
    by (simp add: ensure_all_Cons del: ensure_all.simps(2) split: if_splits)
  from Cons.IH [OF this] show ?case by (simp add: ensure_keys)
qed

lemma filter_starts [simp]:
  "filter is_Start (starts t cs) = starts t cs" "filter is_Tone_now (starts t cs) = []"
  by (induction cs) (simp_all add: starts_def)

lemma playRecording_rest:
  "playRecording s now =
     (case audioBlob s of
        None \<Rightarrow> Fulfilled s
      | Some b \<Rightarrow> play_rest (s\<lparr>log := log s @ [Tone_start]\<rparr>) (activePitches s) now)"
  by (simp add: playRecording_def play_rest_def split: option.split)

subsection \<open>Keys of the player map\<close>

lemma set_update_subset: "set (AList.update k v al) \<subseteq> insert (k, v) (set al)"
  by (induction al) auto

lemma set_delete_subset: "set (AList.delete k al) \<subseteq> set al"
  by (auto simp: AList.delete_eq)

lemma keys_delete: "fst ` set (AList.delete k al) = fst ` set al - {k}"
  by (auto simp: AList.delete_eq)

lemma keyed_update:
  "keyed m \<Longrightarrow> pitch (pitchShift c) = k \<Longrightarrow> keyed (AList.update k c m)"
  using set_update_subset [of k c m] by (auto simp: keyed_def distinct_update)

lemma keyed_delete: "keyed m \<Longrightarrow> keyed (AList.delete k m)"
  using set_delete_subset [of k m] by (auto simp: keyed_def distinct_delete)

lemma keyed_set_up:
  "keyed (pitchPlayers s) \<Longrightarrow> keyed (AList.update p (new_chain s p) (pitchPlayers s))"
  using keyed_update [of "pitchPlayers s" "new_chain s p" p] by (simp add: new_chain_def)

lemma keyed_ensure: "keyed (pitchPlayers s) \<Longrightarrow> keyed (pitchPlayers (state_of (ensure s p)))"
  by (simp add: ensure_eq keyed_set_up)

lemma keyed_ensure_all:
  "keyed (pitchPlayers s) \<Longrightarrow> keyed (pitchPlayers (state_of (ensure_all s ps)))"
  by (induction ps arbitrary: s)
    (simp_all add: ensure_all_Cons keyed_set_up keyed_ensure del: ensure_all.simps(2))

lemma keyed_release: "keyed (pitchPlayers s) \<Longrightarrow> keyed (pitchPlayers (state_of (release s p)))"
  by (cases "map_of (pitchPlayers s) p") (simp_all add: release_None release_Some keyed_delete)

lemma keyed_start_all:
  "keyed (pitchPlayers s) \<Longrightarrow> set cs \<subseteq> set (pitchPlayers s) \<Longrightarrow>
   keyed (pitchPlayers (state_of (start_all t cs s)))"
proof (induction cs arbitrary: s)
  case Nil
  then show ?case by simp
next
  case (Cons kc cs)
  from Cons.prems have "pitch (pitchShift (snd kc)) = fst kc"
    by (auto simp: keyed_def)
  then have "keyed (AList.update (fst kc)
      ((snd kc)\<lparr>player := (player (snd kc))\<lparr>failed_start := True\<rparr>\<rparr>) (pitchPlayers s))"
    using Cons.prems(1) by (simp add: keyed_update)
  with Cons show ?case by (simp add: Let_def)
qed

lemma playRecording_state:
  "state_of (playRecording s t) =
     (case audioBlob s of
        None \<Rightarrow> s
      | Some b \<Rightarrow>
          (case ensure_all (s\<lparr>log := log s @ [Tone_start]\<rparr>) (activePitches s) of
             Rejected e s1 \<Rightarrow> s1
           | Fulfilled s1 \<Rightarrow>
               state_of (start_all t (pitchPlayers s1) (s1\<lparr>log := log s1 @ [Tone_now t]\<rparr>))))"
  by (simp add: playRecording_def split: option.split outcome.split)

lemma play_fields [simp]:
  "audioBlob (state_of (playRecording s t)) = audioBlob s"
  "activePitches (state_of (playRecording s t)) = activePitches s"
  "isRecording (state_of (playRecording s t)) = isRecording s"
proof -
  let ?e = "ensure_all (s\<lparr>log := log s @ [Tone_start]\<rparr>) (activePitches s)"
  have a: "audioBlob (state_of ?e) = audioBlob s" "activePitches (state_of ?e) = activePitches s"
    "isRecording (state_of ?e) = isRecording s"
    by simp_all
  show "audioBlob (state_of (playRecording s t)) = audioBlob s"
    using a(1) by (cases ?e) (simp_all add: playRecording_state split: option.split)
  show "activePitches (state_of (playRecording s t)) = activePitches s"
    using a(2) by (cases ?e) (simp_all add: playRecording_state split: option.split)
  show "isRecording (state_of (playRecording s t)) = isRecording s"
    using a(3) by (cases ?e) (simp_all add: playRecording_state split: option.split)
qed

lemma play_keys:
  "fst ` set (pitchPlayers (state_of (playRecording s t))) =
     (if audioBlob s = None then fst ` set (pitchPlayers s)
      else fst ` set (pitchPlayers
             (state_of (ensure_all (s\<lparr>log := log s @ [Tone_start]\<rparr>) (activePitches s)))))"
  by (cases "ensure_all (s\<lparr>log := log s @ [Tone_start]\<rparr>) (activePitches s)")
     (simp_all add: playRecording_state split: option.split)

lemma keyed_play: "keyed (pitchPlayers s) \<Longrightarrow> keyed (pitchPlayers (state_of (playRecording s t)))"
proof -
  assume k: "keyed (pitchPlayers s)"
  let ?e = "ensure_all (s\<lparr>log := log s @ [Tone_start]\<rparr>) (activePitches s)"
  from k have ke: "keyed (pitchPlayers (state_of ?e))" by (simp add: keyed_ensure_all)
  show ?thesis
  proof (cases ?e)
    case (Fulfilled s1)
    with ke have "keyed (pitchPlayers (s1\<lparr>log := log s1 @ [Tone_now t]\<rparr>))" by simp
    from keyed_start_all [OF this, of "pitchPlayers s1" t] Fulfilled k show ?thesis
      by (simp add: playRecording_state split: option.split)
  next
    case (Rejected e s1)
    with ke k show ?thesis by (simp add: playRecording_state split: option.split)
  qed
qed

lemma loads_ok_play [simp]: "loads_ok (state_of (playRecording s t)) = loads_ok s"
  by (simp add: loads_ok_def)

lemma toggle_fields [simp]:
  "audioBlob (state_of (togglePitch s p)) = audioBlob s"
  "isRecording (state_of (togglePitch s p)) = isRecording s"
  by (cases "p \<in> set (activePitches s)";
      simp add: togglePitch_on togglePitch_off split: option.split)+

lemma loads_ok_toggle [simp]: "loads_ok (state_of (togglePitch s p)) = loads_ok s"
  by (simp add: loads_ok_def)

lemma keyed_toggle: "keyed (pitchPlayers s) \<Longrightarrow> keyed (pitchPlayers (state_of (togglePitch s p)))"
  by (cases "p \<in> set (activePitches s)")
    (simp_all add: togglePitch_on togglePitch_off keyed_set_up keyed_delete split: option.split)

lemma keyed_step: "keyed (pitchPlayers s) \<Longrightarrow> keyed (pitchPlayers (step s a))"
  by (cases a) (simp_all add: startRecording_def stopRecording_def keyed_toggle keyed_play)

lemma run_snoc: "run s (acts @ [a]) = step (run s acts) a"
  by (simp add: run_def)

lemma keyed_run: "keyed (pitchPlayers (run App_init acts))"
proof (induction acts rule: rev_induct)
  case Nil
  show ?case by (simp add: run_def App_init_def keyed_def)
next
  case (snoc a acts)
  then show ?case by (simp add: run_snoc keyed_step)
qed

subsection \<open>Objects that have left the map\<close>


















lemma ids_below_set_up: "ids_below s \<Longrightarrow> ids_below (set_up s p)"
  using set_update_subset [of p "new_chain s p" "pitchPlayers s"]
  by (fastforce simp: ids_below_def new_chain_def)

lemma ids_below_ensure: "ids_below s \<Longrightarrow> ids_below (state_of (ensure s p))"
  by (simp add: ensure_eq ids_below_set_up)

lemma ids_below_ensure_all: "ids_below s \<Longrightarrow> ids_below (state_of (ensure_all s ps))"
  by (induction ps arbitrary: s)
    (simp_all add: ensure_all_Cons ids_below_set_up ids_below_ensure del: ensure_all.simps(2))

lemma ids_below_release: "ids_below s \<Longrightarrow> ids_below (state_of (release s p))"
proof (cases "map_of (pitchPlayers s) p")
  case None
  assume "ids_below s"
  with None show ?thesis by (simp add: release_None)
next
  case (Some c)
  assume "ids_below s"
  then show ?thesis using set_delete_subset [of p "pitchPlayers s"]
    by (auto simp: release_Some [OF Some] ids_below_def)
qed

lemma ids_below_start_all:
  "ids_below s \<Longrightarrow> set cs \<subseteq> set (pitchPlayers s) \<Longrightarrow> ids_below (state_of (start_all t cs s))"
proof (induction cs arbitrary: s)
  case Nil
  then show ?case by simp
next
  case (Cons kc cs)
  let ?s1 = "s\<lparr>log := log s @ [Start (pid (player (snd kc))) t]\<rparr>"
  let ?c = "(snd kc)\<lparr>player := (player (snd kc))\<lparr>failed_start := True\<rparr>\<rparr>"
  from Cons.prems have kc: "(fst kc, snd kc) \<in> set (pitchPlayers s)" by simp
  have 1: "ids_below ?s1" using Cons.prems(1) by (simp add: ids_below_def)
  have 2: "ids_below (?s1\<lparr>pitchPlayers := AList.update (fst kc) ?c (pitchPlayers ?s1)\<rparr>)"
    using Cons.prems(1) kc set_update_subset [of "fst kc" ?c "pitchPlayers s"]
    by (fastforce simp: ids_below_def)
  have "set cs \<subseteq> set (pitchPlayers ?s1)" using Cons.prems(2) by simp
  from Cons.IH [OF 1 this] 2 show ?case by (simp add: Let_def)
qed

lemma ids_below_play_rest: "ids_below s \<Longrightarrow> ids_below (state_of (play_rest s ps t))"
proof -
  assume i: "ids_below s"
  let ?e = "ensure_all s ps"
  have 1: "ids_below (state_of ?e)" using i by (rule ids_below_ensure_all)
  show ?thesis
  proof (cases ?e)
    case (Rejected e s1)
    with 1 show ?thesis by (simp add: play_rest_def)
  next
    case (Fulfilled s1)
    with 1 have "ids_below (s1\<lparr>log := log s1 @ [Tone_now t]\<rparr>)" by (simp add: ids_below_def)
    from ids_below_start_all [OF this, of "pitchPlayers s1" t] Fulfilled show ?thesis
      by (simp add: play_rest_def)
  qed
qed

lemma ids_below_play: "ids_below s \<Longrightarrow> ids_below (state_of (playRecording s t))"
proof (cases "audioBlob s")
  case None
  assume "ids_below s"
  with None show ?thesis by (simp add: playRecording_rest)
next
  case (Some b)
  assume "ids_below s"
  then have "ids_below (s\<lparr>log := log s @ [Tone_start]\<rparr>)" by (simp add: ids_below_def)
  from ids_below_play_rest [OF this, of "activePitches s" t] Some show ?thesis
    by (simp add: playRecording_rest)
qed

lemma ids_below_selection: "ids_below (s\<lparr>activePitches := sel\<rparr>) = ids_below s"
  by (simp add: ids_below_def)

lemma ids_below_toggle: "ids_below s \<Longrightarrow> ids_below (state_of (togglePitch s p))"
proof (cases "p \<in> set (activePitches s)")
  case True
  assume i: "ids_below s"
  from ids_below_release [OF i, of p] True show ?thesis
    by (cases "release s p") (simp_all add: togglePitch_def ids_below_selection)
next
  case False
  assume i: "ids_below s"
  from ids_below_set_up [OF i, of p] i False show ?thesis
    by (simp add: togglePitch_on ids_below_selection)
qed

lemma ids_below_recording:
  "ids_below s \<Longrightarrow> ids_below (startRecording s g)" "ids_below s \<Longrightarrow> ids_below (stopRecording s b)"
  by (simp_all add: startRecording_def stopRecording_def ids_below_def)

lemma ids_below_step: "ids_below s \<Longrightarrow> ids_below (step s a)"
  by (cases a) (simp_all add: ids_below_toggle ids_below_play ids_below_recording)

lemma ids_below_run: "ids_below (run App_init acts)"
proof (induction acts rule: rev_induct)
  case Nil
  show ?case by (simp add: run_def App_init_def ids_below_def)
next
  case (snoc a acts)
  then show ?case by (simp add: run_snoc ids_below_step)
qed

lemma ids_below_in_play:
  "ids_below (state_of (ensure_all ((run App_init acts)\<lparr>log := log (run App_init acts) @ [Tone_start]\<rparr>) ps))"
proof -
  have "ids_below ((run App_init acts)\<lparr>log := log (run App_init acts) @ [Tone_start]\<rparr>)"
    using ids_below_run [of acts] by (simp add: ids_below_def)
  then show ?thesis by (rule ids_below_ensure_all)
qed



subsection \<open>Invariants of the registry\<close>

lemma new_chain_ids [simp]:
  "pid (player (new_chain s p)) = next_id s" "sid (pitchShift (new_chain s p)) = Suc (next_id s)"
  "pitch (pitchShift (new_chain s p)) = p" "failed_start (player (new_chain s p)) = False"
  by (simp_all add: new_chain_def)

lemma set_setup_events [simp]:
  "New_Player i \<in> set (setup_events s p) \<longleftrightarrow> i = next_id s"
  "New_PitchShift i k \<in> set (setup_events s p) \<longleftrightarrow> i = Suc (next_id s) \<and> k = p"
  "Dispose_Player i \<notin> set (setup_events s p)"
  "Dispose_PitchShift i \<notin> set (setup_events s p)"
  by (auto simp: setup_events_def split: option.split)

lemma count_setup_events [simp]:
  "count_list (setup_events s p) (Dispose_Player i) = 0"
  "count_list (setup_events s p) (Dispose_PitchShift i) = 0"
  "count_list (setup_events s p) (New_Player i) = (if i = next_id s then 1 else 0)"
  by (simp_all add: setup_events_def split: option.split)

lemma chain_below:
  assumes "inv_made s" and "inv_chains s" and "map_of (pitchPlayers s) k = Some c"
  shows "pid (player c) < next_id s" and "sid (pitchShift c) < next_id s"
proof -
  from assms(2,3) have "New_Player (pid (player c)) \<in> set (log s)"
    "New_PitchShift (sid (pitchShift c)) k \<in> set (log s)"
    by (auto simp: inv_chains_def)
  with assms(1) show "pid (player c) < next_id s" "sid (pitchShift c) < next_id s"
    unfolding inv_made_def by blast+
qed

lemma fresh_not_held:
  assumes "inv_made s" and "inv_chains s"
  shows "\<not> holds_player s (next_id s)" and "\<not> holds_shifter s (Suc (next_id s))"
    and "\<not> holds_player s (Suc (next_id s))" and "\<not> holds_shifter s (next_id s)"
  using chain_below [OF assms] by (fastforce simp: holds_player_def holds_shifter_def)+

lemma fresh_not_made:
  assumes "inv_made s"
  shows "New_Player (next_id s) \<notin> set (log s)" and "New_PitchShift (Suc (next_id s)) k \<notin> set (log s)"
  using assms unfolding inv_made_def by (auto dest: spec [of _ "next_id s"] spec [of _ "Suc (next_id s)"])

lemma holds_set_up:
  assumes "map_of (pitchPlayers s) p = None"
  shows "holds_player (set_up s p) i \<longleftrightarrow> i = next_id s \<or> holds_player s i"
    and "holds_shifter (set_up s p) i \<longleftrightarrow> i = Suc (next_id s) \<or> holds_shifter s i"
proof -
  have ne: "\<And>k c. map_of (pitchPlayers s) k = Some c \<Longrightarrow> k \<noteq> p" using assms by auto
  show "holds_player (set_up s p) i \<longleftrightarrow> i = next_id s \<or> holds_player s i"
  proof
    assume "holds_player (set_up s p) i"
    then obtain k c where "((map_of (pitchPlayers s))(p \<mapsto> new_chain s p)) k = Some c"
        "pid (player c) = i"
      by (auto simp: holds_player_def update_conv')
    then show "i = next_id s \<or> holds_player s i"
      by (cases "k = p") (auto simp: holds_player_def)
  next
    assume "i = next_id s \<or> holds_player s i"
    then show "holds_player (set_up s p) i"
    proof
      assume "i = next_id s"
      then have "map_of (pitchPlayers (set_up s p)) p = Some (new_chain s p) \<and>
          pid (player (new_chain s p)) = i"
        by (simp add: update_conv')
      then show ?thesis unfolding holds_player_def by blast
    next
      assume "holds_player s i"
      then obtain k c where kc: "map_of (pitchPlayers s) k = Some c" "pid (player c) = i"
        by (auto simp: holds_player_def)
      with ne [OF kc(1)] have "map_of (pitchPlayers (set_up s p)) k = Some c \<and> pid (player c) = i"
        by (simp add: update_conv')
      then show ?thesis unfolding holds_player_def by blast
    qed
  qed
  show "holds_shifter (set_up s p) i \<longleftrightarrow> i = Suc (next_id s) \<or> holds_shifter s i"
  proof
    assume "holds_shifter (set_up s p) i"
    then obtain k c where "((map_of (pitchPlayers s))(p \<mapsto> new_chain s p)) k = Some c"
        "sid (pitchShift c) = i"
      by (auto simp: holds_shifter_def update_conv')
    then show "i = Suc (next_id s) \<or> holds_shifter s i"
      by (cases "k = p") (auto simp: holds_shifter_def)
  next
    assume "i = Suc (next_id s) \<or> holds_shifter s i"
    then show "holds_shifter (set_up s p) i"
    proof
      assume "i = Suc (next_id s)"
      then have "map_of (pitchPlayers (set_up s p)) p = Some (new_chain s p) \<and>
          sid (pitchShift (new_chain s p)) = i"
        by (simp add: update_conv')
      then show ?thesis unfolding holds_shifter_def by blast
    next
      assume "holds_shifter s i"
      then obtain k c where kc: "map_of (pitchPlayers s) k = Some c" "sid (pitchShift c) = i"
        by (auto simp: holds_shifter_def)
      with ne [OF kc(1)] have "map_of (pitchPlayers (set_up s p)) k = Some c \<and>
          sid (pitchShift c) = i"
        by (simp add: update_conv')
      then show ?thesis unfolding holds_shifter_def by blast
    qed
  qed
qed

lemma registry_inv_set_up:
  assumes inv: "registry_inv s" and absent: "map_of (pitchPlayers s) p = None"
  shows "registry_inv (set_up s p)"
proof -
  from inv have d: "distinct (map fst (pitchPlayers s))" and m: "inv_made s"
    and c: "inv_chains s" and u: "inv_unique s" and n: "inv_count s"
    by (simp_all add: registry_inv_def)
  have d': "distinct (map fst (pitchPlayers (set_up s p)))" using d by (simp add: distinct_update)
  have m': "inv_made (set_up s p)"
    using m unfolding inv_made_def by (auto simp: less_SucI)
  have c': "inv_chains (set_up s p)"
    unfolding inv_chains_def
  proof (intro allI impI)
    fix k ch
    assume a: "map_of (pitchPlayers (set_up s p)) k = Some ch"
    show "New_Player (pid (player ch)) \<in> set (log (set_up s p)) \<and>
        New_PitchShift (sid (pitchShift ch)) k \<in> set (log (set_up s p)) \<and>
        pitch (pitchShift ch) = k \<and> \<not> failed_start (player ch) \<and>
        (\<forall>b. audioBlob (set_up s p) = Some b \<longrightarrow>
           Load (pid (player ch)) b \<in> set (log (set_up s p)) \<and>
           (decodable b \<longrightarrow> buffer (player ch) = Some b))"
    proof (cases "k = p")
      case True
      with a have "ch = new_chain s p" by (simp add: update_conv')
      with True show ?thesis by (auto simp: new_chain_def setup_events_def)
    next
      case False
      with a have "map_of (pitchPlayers s) k = Some ch" by (simp add: update_conv')
      with c show ?thesis unfolding inv_chains_def by auto
    qed
  qed
  have u': "inv_unique (set_up s p)"
    unfolding inv_unique_def
  proof (intro allI impI)
    fix k k' ch ch'
    assume a: "map_of (pitchPlayers (set_up s p)) k = Some ch \<and>
        map_of (pitchPlayers (set_up s p)) k' = Some ch' \<and> k \<noteq> k'"
    have old: "\<And>j e. map_of (pitchPlayers s) j = Some e \<Longrightarrow>
        pid (player e) < next_id s \<and> sid (pitchShift e) < next_id s"
      using chain_below [OF m c] by blast
    have uq: "\<And>j j' e e'. map_of (pitchPlayers s) j = Some e \<Longrightarrow>
        map_of (pitchPlayers s) j' = Some e' \<Longrightarrow> j \<noteq> j' \<Longrightarrow>
        pid (player e) \<noteq> pid (player e') \<and> sid (pitchShift e) \<noteq> sid (pitchShift e')"
      using u unfolding inv_unique_def by blast
    show "pid (player ch) \<noteq> pid (player ch') \<and> sid (pitchShift ch) \<noteq> sid (pitchShift ch')"
      using a old [of k ch] old [of k' ch'] uq [of k ch k' ch']
      by (cases "k = p"; cases "k' = p") (auto simp: update_conv')
  qed
  have n': "inv_count (set_up s p)"
    unfolding inv_count_def
  proof (intro allI conjI)
    fix i
    from n have cn: "count_list (log s) (New_Player i) \<le> 1"
      and cd: "count_list (log s) (Dispose_Player i) =
          (if New_Player i \<in> set (log s) \<and> \<not> holds_player s i then 1 else 0)"
      and cs: "count_list (log s) (Dispose_PitchShift i) =
          (if (\<exists>k. New_PitchShift i k \<in> set (log s)) \<and> \<not> holds_shifter s i then 1 else 0)"
      by (simp_all add: inv_count_def)
    show "count_list (log (set_up s p)) (New_Player i) \<le> 1"
      using cn fresh_not_made(1) [OF m] by (auto simp: count_list_0_iff)
    show "count_list (log (set_up s p)) (Dispose_Player i) =
        (if New_Player i \<in> set (log (set_up s p)) \<and> \<not> holds_player (set_up s p) i then 1 else 0)"
      using cd fresh_not_made(1) [OF m] by (auto simp: holds_set_up [OF absent])
    show "count_list (log (set_up s p)) (Dispose_PitchShift i) =
        (if (\<exists>k. New_PitchShift i k \<in> set (log (set_up s p))) \<and> \<not> holds_shifter (set_up s p) i
         then 1 else 0)"
      using cs fresh_not_made(2) [OF m] by (auto simp: holds_set_up [OF absent])
  qed
  from d' m' c' u' n' show ?thesis by (simp add: registry_inv_def)
qed

lemma registry_inv_ensure: "registry_inv s \<Longrightarrow> registry_inv (state_of (ensure s p))"
  by (auto simp: ensure_eq registry_inv_set_up)

lemma release_registry:
  assumes "registry_inv s" and "map_of (pitchPlayers s) p = Some c"
  shows "release s p =
     Fulfilled (s\<lparr>pitchPlayers := AList.delete p (pitchPlayers s),
        log := log s @ [Dispose_Player (pid (player c)),
                        Dispose_PitchShift (sid (pitchShift c))]\<rparr>)"
proof -
  from assms have "\<not> failed_start (player c)"
    by (auto simp: registry_inv_def inv_chains_def)
  with assms(2) show ?thesis by (simp add: release_Some)
qed

lemma holds_delete:
  assumes "inv_unique s" and "map_of (pitchPlayers s) p = Some c"
  shows "holds_player (s\<lparr>pitchPlayers := AList.delete p (pitchPlayers s), log := l\<rparr>) i \<longleftrightarrow>
           holds_player s i \<and> i \<noteq> pid (player c)"
    and "holds_shifter (s\<lparr>pitchPlayers := AList.delete p (pitchPlayers s), log := l\<rparr>) i \<longleftrightarrow>
           holds_shifter s i \<and> i \<noteq> sid (pitchShift c)"
proof -
  have uq: "\<And>k e. map_of (pitchPlayers s) k = Some e \<Longrightarrow> k \<noteq> p \<Longrightarrow>
      pid (player e) \<noteq> pid (player c) \<and> sid (pitchShift e) \<noteq> sid (pitchShift c)"
    using assms unfolding inv_unique_def by blast
  show "holds_player (s\<lparr>pitchPlayers := AList.delete p (pitchPlayers s), log := l\<rparr>) i \<longleftrightarrow>
           holds_player s i \<and> i \<noteq> pid (player c)"
  proof
    assume "holds_player (s\<lparr>pitchPlayers := AList.delete p (pitchPlayers s), log := l\<rparr>) i"
    then obtain k e where "((map_of (pitchPlayers s))(p := None)) k = Some e" "pid (player e) = i"
      by (auto simp: holds_player_def delete_conv')
    then have "k \<noteq> p" "map_of (pitchPlayers s) k = Some e" "pid (player e) = i"
      by (auto split: if_splits)
    with uq [of k e] show "holds_player s i \<and> i \<noteq> pid (player c)"
      by (auto simp: holds_player_def)
  next
    assume a: "holds_player s i \<and> i \<noteq> pid (player c)"
    then obtain k e where ke: "map_of (pitchPlayers s) k = Some e" "pid (player e) = i"
      by (auto simp: holds_player_def)
    with a assms(2) have "k \<noteq> p" by auto
    with ke have "map_of (AList.delete p (pitchPlayers s)) k = Some e \<and> pid (player e) = i"
      by (simp add: delete_conv')
    then show "holds_player (s\<lparr>pitchPlayers := AList.delete p (pitchPlayers s), log := l\<rparr>) i"
      unfolding holds_player_def by auto
  qed
  show "holds_shifter (s\<lparr>pitchPlayers := AList.delete p (pitchPlayers s), log := l\<rparr>) i \<longleftrightarrow>
           holds_shifter s i \<and> i \<noteq> sid (pitchShift c)"
  proof
    assume "holds_shifter (s\<lparr>pitchPlayers := AList.delete p (pitchPlayers s), log := l\<rparr>) i"
    then obtain k e where "((map_of (pitchPlayers s))(p := None)) k = Some e"
        "sid (pitchShift e) = i"
      by (auto simp: holds_shifter_def delete_conv')
    then have "k \<noteq> p" "map_of (pitchPlayers s) k = Some e" "sid (pitchShift e) = i"
      by (auto split: if_splits)
    with uq [of k e] show "holds_shifter s i \<and> i \<noteq> sid (pitchShift c)"
      by (auto simp: holds_shifter_def)
  next
    assume a: "holds_shifter s i \<and> i \<noteq> sid (pitchShift c)"
    then obtain k e where ke: "map_of (pitchPlayers s) k = Some e" "sid (pitchShift e) = i"
      by (auto simp: holds_shifter_def)
    with a assms(2) have "k \<noteq> p" by auto
    with ke have "map_of (AList.delete p (pitchPlayers s)) k = Some e \<and> sid (pitchShift e) = i"
      by (simp add: delete_conv')
    then show "holds_shifter (s\<lparr>pitchPlayers := AList.delete p (pitchPlayers s), log := l\<rparr>) i"
      unfolding holds_shifter_def by auto
  qed
qed

lemma registry_inv_release:
  assumes inv: "registry_inv s"
  shows "registry_inv (state_of (release s p))"
proof (cases "map_of (pitchPlayers s) p")
  case None
  with inv show ?thesis by (simp add: release_None)
next
  case (Some ch)
  let ?l = "log s @ [Dispose_Player (pid (player ch)), Dispose_PitchShift (sid (pitchShift ch))]"
  let ?s' = "s\<lparr>pitchPlayers := AList.delete p (pitchPlayers s), log := ?l\<rparr>"
  from inv have d: "distinct (map fst (pitchPlayers s))" and m: "inv_made s"
    and c: "inv_chains s" and u: "inv_unique s" and n: "inv_count s"
    by (simp_all add: registry_inv_def)
  have rel: "state_of (release s p) = ?s'" using release_registry [OF inv Some] by simp
  have held: "holds_player s (pid (player ch))" "holds_shifter s (sid (pitchShift ch))"
    using Some by (auto simp: holds_player_def holds_shifter_def)
  from c Some have made: "New_Player (pid (player ch)) \<in> set (log s)"
    "New_PitchShift (sid (pitchShift ch)) p \<in> set (log s)"
    by (auto simp: inv_chains_def)
  have d': "distinct (map fst (pitchPlayers ?s'))" using d by (simp add: distinct_delete)
  have m': "inv_made ?s'" using m unfolding inv_made_def by auto
  have c': "inv_chains ?s'"
    unfolding inv_chains_def
  proof (intro allI impI)
    fix k e
    assume "map_of (pitchPlayers ?s') k = Some e"
    then have "map_of (pitchPlayers s) k = Some e" by (auto simp: delete_conv' split: if_splits)
    with c show "New_Player (pid (player e)) \<in> set (log ?s') \<and>
        New_PitchShift (sid (pitchShift e)) k \<in> set (log ?s') \<and>
        pitch (pitchShift e) = k \<and> \<not> failed_start (player e) \<and>
        (\<forall>b. audioBlob ?s' = Some b \<longrightarrow>
           Load (pid (player e)) b \<in> set (log ?s') \<and>
           (decodable b \<longrightarrow> buffer (player e) = Some b))"
      unfolding inv_chains_def by auto
  qed
  have u': "inv_unique ?s'"
    unfolding inv_unique_def
  proof (intro allI impI)
    fix k k' e e'
    assume "map_of (pitchPlayers ?s') k = Some e \<and> map_of (pitchPlayers ?s') k' = Some e' \<and> k \<noteq> k'"
    then have "map_of (pitchPlayers s) k = Some e \<and> map_of (pitchPlayers s) k' = Some e' \<and> k \<noteq> k'"
      by (auto simp: delete_conv' split: if_splits)
    with u show "pid (player e) \<noteq> pid (player e') \<and> sid (pitchShift e) \<noteq> sid (pitchShift e')"
      unfolding inv_unique_def by blast
  qed
  have n': "inv_count ?s'"
    unfolding inv_count_def
  proof (intro allI conjI)
    fix i
    from n have cn: "count_list (log s) (New_Player i) \<le> 1"
      and cd: "count_list (log s) (Dispose_Player i) =
          (if New_Player i \<in> set (log s) \<and> \<not> holds_player s i then 1 else 0)"
      and cs: "count_list (log s) (Dispose_PitchShift i) =
          (if (\<exists>k. New_PitchShift i k \<in> set (log s)) \<and> \<not> holds_shifter s i then 1 else 0)"
      by (simp_all add: inv_count_def)
    show "count_list (log ?s') (New_Player i) \<le> 1" using cn by simp
    show "count_list (log ?s') (Dispose_Player i) =
        (if New_Player i \<in> set (log ?s') \<and> \<not> holds_player ?s' i then 1 else 0)"
      using cd held(1) made(1) by (auto simp: holds_delete [OF u Some])
    show "count_list (log ?s') (Dispose_PitchShift i) =
        (if (\<exists>k. New_PitchShift i k \<in> set (log ?s')) \<and> \<not> holds_shifter ?s' i then 1 else 0)"
      using cs held(2) made(2) by (auto simp: holds_delete [OF u Some])
  qed
  from d' m' c' u' n' rel show ?thesis by (simp add: registry_inv_def)
qed

lemma run_registry_snoc:
  "run_registry ab (ops @ [x]) = registry_step (run_registry ab ops) x"
  by (simp add: run_registry_def)

lemma registry_inv_run: "registry_inv (run_registry ab ops)"
proof (induction ops rule: rev_induct)
  case Nil
  show ?case
    by (simp add: run_registry_def App_init_def registry_inv_def inv_made_def inv_chains_def
        inv_unique_def inv_count_def holds_player_def holds_shifter_def)
next
  case (snoc x ops)
  then show ?case
    by (cases x) (simp_all add: run_registry_snoc registry_inv_ensure registry_inv_release)
qed

lemma audioBlob_run_registry [simp]: "audioBlob (run_registry ab ops) = ab"
proof (induction ops rule: rev_induct)
  case Nil
  show ?case by (simp add: run_registry_def App_init_def)
next
  case (snoc x ops)
  then show ?case by (cases x) (simp_all add: run_registry_snoc)
qed

lemma live_spec_Nil [simp]: "live_spec [] q = False"
  by (simp add: live_spec_def)

lemma live_spec_Ensure [simp]: "live_spec (ops @ [Ensure p]) q = (q = p \<or> live_spec ops q)"
proof
  assume "live_spec (ops @ [Ensure p]) q"
  then obtain i where i: "i < Suc (length ops)" "(ops @ [Ensure p]) ! i = Ensure q"
      "Release q \<notin> set (drop (Suc i) (ops @ [Ensure p]))"
    by (auto simp: live_spec_def)
  show "q = p \<or> live_spec ops q"
  proof (cases "i < length ops")
    case True
    with i have "ops ! i = Ensure q" "Release q \<notin> set (drop (Suc i) ops)"
      by (simp_all add: nth_append)
    with True show ?thesis by (auto simp: live_spec_def)
  next
    case False
    with i(1) have "i = length ops" by simp
    with i(2) show ?thesis by simp
  qed
next
  assume "q = p \<or> live_spec ops q"
  then show "live_spec (ops @ [Ensure p]) q"
  proof
    assume "q = p"
    then have "(ops @ [Ensure p]) ! length ops = Ensure q \<and>
        Release q \<notin> set (drop (Suc (length ops)) (ops @ [Ensure p]))"
      by simp
    then show ?thesis unfolding live_spec_def
      by (intro exI [of _ "length ops"]) simp
  next
    assume "live_spec ops q"
    then obtain i where i: "i < length ops" "ops ! i = Ensure q"
        "Release q \<notin> set (drop (Suc i) ops)"
      by (auto simp: live_spec_def)
    then have "(ops @ [Ensure p]) ! i = Ensure q \<and>
        Release q \<notin> set (drop (Suc i) (ops @ [Ensure p]))"
      by (simp add: nth_append)
    with i(1) show ?thesis unfolding live_spec_def
      by (intro exI [of _ i]) simp
  qed
qed

lemma live_spec_Release [simp]: "live_spec (ops @ [Release p]) q = (q \<noteq> p \<and> live_spec ops q)"
proof
  assume "live_spec (ops @ [Release p]) q"
  then obtain i where i: "i < Suc (length ops)" "(ops @ [Release p]) ! i = Ensure q"
      "Release q \<notin> set (drop (Suc i) (ops @ [Release p]))"
    by (auto simp: live_spec_def)
  have lt: "i < length ops"
  proof (rule ccontr)
    assume "\<not> i < length ops"
    with i(1) have "i = length ops" by simp
    with i(2) show False by simp
  qed
  with i have "ops ! i = Ensure q" "Release q \<notin> set (drop (Suc i) ops)" "q \<noteq> p"
    by (auto simp: nth_append)
  with lt show "q \<noteq> p \<and> live_spec ops q" by (auto simp: live_spec_def)
next
  assume a: "q \<noteq> p \<and> live_spec ops q"
  then obtain i where i: "i < length ops" "ops ! i = Ensure q"
      "Release q \<notin> set (drop (Suc i) ops)"
    by (auto simp: live_spec_def)
  with a have "(ops @ [Release p]) ! i = Ensure q \<and>
      Release q \<notin> set (drop (Suc i) (ops @ [Release p]))"
    by (simp add: nth_append)
  with i(1) show "live_spec (ops @ [Release p]) q" unfolding live_spec_def
    by (intro exI [of _ i]) simp
qed

lemma release_keys_registry:
  "registry_inv s \<Longrightarrow>
   fst ` set (pitchPlayers (state_of (release s p))) = fst ` set (pitchPlayers s) - {p}"
proof (cases "map_of (pitchPlayers s) p")
  case None
  assume "registry_inv s"
  from None have "p \<notin> fst ` set (pitchPlayers s)" by (simp add: map_of_eq_None_iff)
  with None show ?thesis by (simp add: release_None)
next
  case (Some c)
  assume "registry_inv s"
  from release_registry [OF this Some] show ?thesis by (simp add: keys_delete)
qed

lemma run_registry_live:
  "fst ` set (pitchPlayers (run_registry ab ops)) = {q. live_spec ops q}"
proof (induction ops rule: rev_induct)
  case Nil
  show ?case by (simp add: run_registry_def App_init_def)
next
  case (snoc x ops)
  show ?case
  proof (cases x)
    case (Ensure p)
    with snoc show ?thesis by (auto simp: run_registry_snoc ensure_keys)
  next
    case (Release p)
    with snoc show ?thesis
      by (auto simp: run_registry_snoc release_keys_registry [OF registry_inv_run])
  qed
qed

lemma holds_player_ids:
  assumes "distinct (map fst (pitchPlayers s))"
  shows "holds_player s i \<longleftrightarrow> i \<in> set (player_ids s)"
proof
  assume "holds_player s i"
  then obtain k c where "map_of (pitchPlayers s) k = Some c" "pid (player c) = i"
    by (auto simp: holds_player_def)
  then have "(k, c) \<in> set (pitchPlayers s)" "pid (player (snd (k, c))) = i"
    by (simp_all add: map_of_SomeD)
  then show "i \<in> set (player_ids s)" unfolding player_ids_def set_map by (metis image_eqI)
next
  assume "i \<in> set (player_ids s)"
  then obtain kc where kc: "kc \<in> set (pitchPlayers s)" "i = pid (player (snd kc))"
    by (auto simp: player_ids_def)
  then have "map_of (pitchPlayers s) (fst kc) = Some (snd kc)"
    using assms by (simp add: map_of_eq_Some_iff)
  with kc(2) show "holds_player s i" unfolding holds_player_def by blast
qed

lemma holds_shifter_ids:
  assumes "distinct (map fst (pitchPlayers s))"
  shows "holds_shifter s i \<longleftrightarrow> i \<in> set (shifter_ids s)"
proof
  assume "holds_shifter s i"
  then obtain k c where "map_of (pitchPlayers s) k = Some c" "sid (pitchShift c) = i"
    by (auto simp: holds_shifter_def)
  then have "(k, c) \<in> set (pitchPlayers s)" "sid (pitchShift (snd (k, c))) = i"
    by (simp_all add: map_of_SomeD)
  then show "i \<in> set (shifter_ids s)" unfolding shifter_ids_def set_map by (metis image_eqI)
next
  assume "i \<in> set (shifter_ids s)"
  then obtain kc where kc: "kc \<in> set (pitchPlayers s)" "i = sid (pitchShift (snd kc))"
    by (auto simp: shifter_ids_def)
  then have "map_of (pitchPlayers s) (fst kc) = Some (snd kc)"
    using assms by (simp add: map_of_eq_Some_iff)
  with kc(2) show "holds_shifter s i" unfolding holds_shifter_def by blast
qed

lemma update_absent: "k \<notin> fst ` set al \<Longrightarrow> AList.update k v al = al @ [(k, v)]"
  by (induction al) auto

lemma ensure_absent:
  assumes "map_of (pitchPlayers s) q = None" and "audioBlob s = Some b" and "decodable b"
  shows "ensure s q =
     Fulfilled (s\<lparr>pitchPlayers := pitchPlayers s @
         [(q, \<lparr>player = \<lparr>pid = next_id s, buffer = Some b, out = Into (Suc (next_id s)),
                          failed_start = False\<rparr>,
               pitchShift = \<lparr>sid = Suc (next_id s), pitch = q, windowSize = 1 / 10,
                              delayTime = 0, shift_out = Destination\<rparr>\<rparr>)],
       next_id := next_id s + 2,
       log := log s @ [New_Player (next_id s), New_PitchShift (Suc (next_id s)) q,
                       Load (next_id s) b]\<rparr>)"
proof -
  from assms(1) have "q \<notin> fst ` set (pitchPlayers s)" by (simp add: map_of_eq_None_iff)
  with assms show ?thesis
    by (simp add: ensure_eq loads_ok_def set_up_def new_chain_def setup_events_def update_absent)
qed

lemma release_last:
  assumes "map_of (pitchPlayers s) q = None" and "\<not> failed_start (player c)"
  shows "release (s\<lparr>pitchPlayers := pitchPlayers s @ [(q, c)], next_id := n, log := l\<rparr>) q =
     Fulfilled (s\<lparr>next_id := n,
        log := l @ [Dispose_Player (pid (player c)), Dispose_PitchShift (sid (pitchShift c))]\<rparr>)"
proof -
  from assms(1) have nk: "q \<notin> fst ` set (pitchPlayers s)" by (simp add: map_of_eq_None_iff)
  have 1: "map_of (pitchPlayers s @ [(q, c)]) q = Some c"
    using assms(1) by (simp add: map_add_def)
  have "AList.delete q (pitchPlayers s) = pitchPlayers s" using nk by (rule AList.delete_id)
  then have 2: "AList.delete q (pitchPlayers s @ [(q, c)]) = pitchPlayers s"
    by (simp add: AList.delete_eq)
  let ?s1 = "s\<lparr>pitchPlayers := pitchPlayers s @ [(q, c)], next_id := n, log := l\<rparr>"
  have "map_of (pitchPlayers ?s1) q = Some c" using 1 by simp
  from release_Some [OF this] assms(2) 2 show ?thesis by simp
qed

subsection \<open>Runs in which every load succeeds\<close>

lemma healthy_set_up:
  assumes "healthy s" and "audioBlob s \<noteq> None" and "loads_ok s"
  shows "healthy (set_up s p)"
  unfolding healthy_def
proof (intro allI impI)
  fix k c
  assume a: "map_of (pitchPlayers (set_up s p)) k = Some c"
  show "buffer (player c) \<noteq> None \<and> \<not> failed_start (player c)"
  proof (cases "k = p")
    case True
    with a have "c = new_chain s p" by (simp add: update_conv')
    with assms(2,3) show ?thesis by (auto simp: new_chain_def loads_ok_def)
  next
    case False
    with a have "map_of (pitchPlayers s) k = Some c" by (simp add: update_conv')
    with assms(1) show ?thesis by (simp add: healthy_def)
  qed
qed

lemma healthy_ensure_all:
  "healthy s \<Longrightarrow> audioBlob s \<noteq> None \<Longrightarrow> loads_ok s \<Longrightarrow> healthy (state_of (ensure_all s ps))"
proof (induction ps arbitrary: s)
  case Nil
  then show ?case by simp
next
  case (Cons p ps)
  have "healthy (state_of (ensure s p))"
    using Cons.prems by (simp add: ensure_eq healthy_set_up)
  from Cons.IH [OF this] Cons.prems show ?case
    by (simp add: ensure_all_Cons del: ensure_all.simps(2))
qed

lemma healthy_other_fields:
  "healthy (s\<lparr>log := l\<rparr>) = healthy s" "healthy (s\<lparr>activePitches := sel\<rparr>) = healthy s"
  by (simp_all add: healthy_def)

lemma togglePitch_sound:
  assumes "loads_ok s" and "healthy s"
  shows "togglePitch s p = Fulfilled (state_of (togglePitch s p))"
    and "healthy (state_of (togglePitch s p))"
    and "reconciled s \<Longrightarrow> reconciled (state_of (togglePitch s p))"
proof -
  show "togglePitch s p = Fulfilled (state_of (togglePitch s p))"
    using assms
    by (cases "p \<in> set (activePitches s)")
      (auto simp: togglePitch_on togglePitch_off healthy_def split: option.split)
  show "healthy (state_of (togglePitch s p))"
  proof (cases "p \<in> set (activePitches s)")
    case True
    with assms(2) show ?thesis
      by (auto simp: togglePitch_off healthy_def delete_conv' split: option.split if_splits)
  next
    case False
    with assms healthy_set_up [of s p] show ?thesis
      by (auto simp: togglePitch_on healthy_other_fields)
  qed
  assume "reconciled s"
  with assms show "reconciled (state_of (togglePitch s p))"
    by (cases "p \<in> set (activePitches s)")
      (auto simp: togglePitch_on togglePitch_off reconciled_def healthy_def keys_delete dom_update
        map_of_eq_None_iff image_iff split: option.split)
qed

lemma playRecording_sound:
  assumes "loads_ok s" and "healthy s" and "keyed (pitchPlayers s)"
  shows "playRecording s t = Fulfilled (state_of (playRecording s t))"
    and "healthy (state_of (playRecording s t))"
    and "reconciled s \<Longrightarrow> reconciled (state_of (playRecording s t))"
proof -
  let ?s0 = "s\<lparr>log := log s @ [Tone_start]\<rparr>"
  have ok0: "loads_ok ?s0" using assms(1) by (simp add: loads_ok_def)
  obtain s1 where e: "ensure_all ?s0 (activePitches s) = Fulfilled s1"
    using ensure_all_ok [OF ok0] by blast
  then have s1: "state_of (ensure_all ?s0 (activePitches s)) = s1" by simp
  let ?s2 = "s1\<lparr>log := log s1 @ [Tone_now t]\<rparr>"
  have full: "audioBlob s \<noteq> None \<Longrightarrow>
      playRecording s t = Fulfilled (?s2\<lparr>log := log ?s2 @ starts t (pitchPlayers s1)\<rparr>) \<and>
      healthy s1"
  proof -
    assume b: "audioBlob s \<noteq> None"
    have "healthy (state_of (ensure_all ?s0 (activePitches s)))"
      using assms(2) b ok0 by (intro healthy_ensure_all) (simp_all add: healthy_other_fields)
    then have h1: "healthy s1" by (simp only: s1)
    have "keyed (pitchPlayers (state_of (ensure_all ?s0 (activePitches s))))"
      using assms(3) by (simp add: keyed_ensure_all)
    then have d: "distinct (map fst (pitchPlayers s1))" by (simp add: keyed_def s1)
    have "\<forall>kc \<in> set (pitchPlayers s1). buffer (player (snd kc)) \<noteq> None"
    proof
      fix kc
      assume "kc \<in> set (pitchPlayers s1)"
      with d have "map_of (pitchPlayers s1) (fst kc) = Some (snd kc)"
        by (simp add: map_of_eq_Some_iff)
      with h1 show "buffer (player (snd kc)) \<noteq> None" by (simp add: healthy_def)
    qed
    from start_all_loaded [OF this, of t ?s2] e b h1 show ?thesis
      by (auto simp: playRecording_def)
  qed
  show "playRecording s t = Fulfilled (state_of (playRecording s t))"
    using full by (cases "audioBlob s") (simp_all add: playRecording_def)
  show "healthy (state_of (playRecording s t))"
    using full assms(2) by (cases "audioBlob s") (auto simp: playRecording_def healthy_def)
  assume "reconciled s"
  with ensure_all_keys_ok [OF ok0, of "activePitches s"]
  show "reconciled (state_of (playRecording s t))"
    by (simp add: reconciled_def play_keys)
qed

lemma loads_ok_step: "loads_ok s \<Longrightarrow> capture_decodable a \<Longrightarrow> loads_ok (step s a)"
  by (cases a) (simp_all add: startRecording_def stopRecording_def loads_ok_def)

lemma sound_step:
  assumes "loads_ok s" and "healthy s" and "reconciled s" and "keyed (pitchPlayers s)"
  shows "healthy (step s a)" and "reconciled (step s a)"
proof -
  show "healthy (step s a)"
    using assms togglePitch_sound(2) [of s] playRecording_sound(2) [of s]
    by (cases a) (auto simp: startRecording_def stopRecording_def healthy_def)
  show "reconciled (step s a)"
    using assms togglePitch_sound(3) [of s] playRecording_sound(3) [of s]
    by (cases a) (auto simp: startRecording_def stopRecording_def reconciled_def)
qed

lemma sound_run:
  "\<forall>a \<in> set acts. capture_decodable a \<Longrightarrow>
   loads_ok (run App_init acts) \<and> healthy (run App_init acts) \<and> reconciled (run App_init acts)"
proof (induction acts rule: rev_induct)
  case Nil
  show ?case by (simp add: run_def App_init_def loads_ok_def healthy_def reconciled_def)
next
  case (snoc a acts)
  then have "loads_ok (run App_init acts)" "healthy (run App_init acts)"
    "reconciled (run App_init acts)" "capture_decodable a"
    by simp_all
  with sound_step [OF _ _ _ keyed_run, of acts a] loads_ok_step show ?case
    by (simp add: run_snoc)
qed

lemma completed_toggles_restore:
  assumes "togglePitch s p = Fulfilled s1" and "togglePitch s1 p = Fulfilled s2"
  shows "set (activePitches s2) = set (activePitches s)"
proof (cases "p \<in> set (activePitches s)")
  case True
  with assms(1) have 1: "activePitches s1 = removeAll p (activePitches s)"
    by (auto simp: togglePitch_off split: option.splits if_splits)
  then have "p \<notin> set (activePitches s1)" by simp
  with assms(2) have "activePitches s2 = activePitches s1 @ [p]"
    by (auto simp: togglePitch_on split: if_splits)
  with 1 True show ?thesis by auto
next
  case False
  with assms(1) have 1: "activePitches s1 = activePitches s @ [p]"
    by (auto simp: togglePitch_on split: if_splits)
  then have "p \<in> set (activePitches s1)" by simp
  with assms(2) have "activePitches s2 = removeAll p (activePitches s1)"
    by (auto simp: togglePitch_off split: option.splits if_splits)
  with 1 False show ?thesis by auto
qed

lemma runs_with_decodable_captures:
  assumes "\<forall>a \<in> set acts. capture_decodable a"
  shows "fst ` set (pitchPlayers (run App_init acts)) \<subseteq> set (activePitches (run App_init acts))"
    and "\<not> is_rejected (togglePitch (run App_init acts) p)"
    and "\<not> is_rejected (playRecording (run App_init acts) t)"
    and "activePitches (run App_init acts) = [] \<Longrightarrow>
         filter is_Start
           (new_events (run App_init acts) (state_of (playRecording (run App_init acts) t))) = []"
proof -
  let ?s = "run App_init acts"
  from sound_run [OF assms] have ok: "loads_ok ?s" and h: "healthy ?s" and r: "reconciled ?s"
    by simp_all
  from r show "fst ` set (pitchPlayers ?s) \<subseteq> set (activePitches ?s)"
    by (simp add: reconciled_def)
  from togglePitch_sound(1) [OF ok h, of p] show "\<not> is_rejected (togglePitch ?s p)"
    by (metis is_rejected.simps(1))
  from playRecording_sound(1) [OF ok h keyed_run, of t] show "\<not> is_rejected (playRecording ?s t)"
    by (metis is_rejected.simps(1))
  assume "activePitches ?s = []"
  with r have "pitchPlayers ?s = []" by (simp add: reconciled_def)
  then show "filter is_Start (new_events ?s (state_of (playRecording ?s t))) = []"
    using \<open>activePitches ?s = []\<close>
    by (simp add: playRecording_def new_events_def split: option.split)
qed

subsection \<open>Evaluation\<close>

lemmas eval_defs = run_def App_init_def startRecording_def stopRecording_def togglePitch_on
  togglePitch_off playRecording_def ensure_eq loads_ok_def set_up_def new_chain_def
  setup_events_def

section \<open>Lazy creation of chains (C1)\<close>




section \<open>Play without a recording (C2)\<close>

text \<open>
  C2 says that play without a recording fails with an error. The handler has one
  \<^verbatim>\<open>if (audioBlob)\<close> around its whole body and returns normally: on the initial state
  the promise is fulfilled, not rejected.
\<close>

theorem playRecording_without_recording_counterexample:
  "\<not> is_rejected (playRecording App_init 0)"
  by (simp add: playRecording_def App_init_def)

text \<open>
  C2, as the code has it. Without a recording, play returns normally and changes nothing:
  no error, no call on the library, the player map and the selection as before.
\<close>

theorem playRecording_without_recording:
  "audioBlob s = None \<Longrightarrow> playRecording s t = Fulfilled s"
  by (simp add: playRecording_def)

theorem playRecording_without_recording_witness:
  "playRecording App_init 7 = Fulfilled App_init"
  using playRecording_without_recording [of App_init 7] by (simp add: App_init_def)

section \<open>One start time for every registered chain (C3)\<close>

text \<open>
  C3. When play is fulfilled with a recording present, the calls it made contain exactly
  one reading of the clock, and the start calls are exactly one per chain of the player
  map, in the order of the map, each with the time read. The keys of the map are those
  registered before the call together with the selected offsets, and every chain
  registered before the call is still the chain of its key: all of them are started, not
  only those the call created.
\<close>

theorem playRecording_starts_every_chain:
  assumes "audioBlob s = Some b" and "playRecording s t = Fulfilled s'"
  shows "filter is_Start (new_events s s') =
           map (\<lambda>kc. Start (pid (player (snd kc))) t) (pitchPlayers s') \<and>
         filter is_Tone_now (new_events s s') = [Tone_now t] \<and>
         fst ` set (pitchPlayers s') = fst ` set (pitchPlayers s) \<union> set (activePitches s) \<and>
         (\<forall>k c. map_of (pitchPlayers s) k = Some c \<longrightarrow> map_of (pitchPlayers s') k = Some c)"
proof -
  let ?s0 = "s\<lparr>log := log s @ [Tone_start]\<rparr>"
  from assms obtain s1 where
    s1: "ensure_all ?s0 (activePitches s) = Fulfilled s1" and
    s': "start_all t (pitchPlayers s1) (s1\<lparr>log := log s1 @ [Tone_now t]\<rparr>) = Fulfilled s'"
    by (auto simp: playRecording_def split: outcome.splits)
  from start_all_Fulfilled [OF s']
  have eq: "s' = s1\<lparr>log := log s1 @ [Tone_now t] @ starts t (pitchPlayers s1)\<rparr>"
    by simp
  obtain evs where evs: "log (state_of (ensure_all ?s0 (activePitches s))) = log ?s0 @ evs"
      and q: "quiet evs"
    using ensure_all_log by blast
  from evs s1 have l1: "log s1 = log s @ [Tone_start] @ evs" by simp
  have new: "new_events s s' = [Tone_start] @ evs @ [Tone_now t] @ starts t (pitchPlayers s')"
    using eq l1 by (simp add: new_events_def)
  have keys: "fst ` set (pitchPlayers s') = fst ` set (pitchPlayers s) \<union> set (activePitches s)"
    using ensure_all_Fulfilled_keys [OF s1] eq by simp
  have kept: "\<forall>k c. map_of (pitchPlayers s) k = Some c \<longrightarrow> map_of (pitchPlayers s') k = Some c"
  proof (intro allI impI)
    fix k c
    assume "map_of (pitchPlayers s) k = Some c"
    then have "map_of (pitchPlayers ?s0) k = Some c" by simp
    from ensure_all_keeps [OF this, of "activePitches s"] s1 eq
    show "map_of (pitchPlayers s') k = Some c" by simp
  qed
  from q have "filter is_Start evs = []" "filter is_Tone_now evs = []"
    by (simp_all add: quiet_def)
  with new keys kept show ?thesis by (simp add: starts_def [symmetric])
qed

theorem playRecording_starts_every_chain_witness:
  "filter is_Start
     (new_events (run App_init [StartRecording True, StopRecording (Blob 0 True), TogglePitch 4])
        (state_of (playRecording
           (run App_init [StartRecording True, StopRecording (Blob 0 True), TogglePitch 4]) 5))) =
   [Start 0 5, Start 2 5]"
proof -
  let ?s = "run App_init [StartRecording True, StopRecording (Blob 0 True), TogglePitch 4]"
  have s: "?s = \<lparr>isRecording = False, audioBlob = Some (Blob 0 True), activePitches = [0, 4],
      pitchPlayers = [(4, \<lparr>player = \<lparr>pid = 0, buffer = Some (Blob 0 True), out = Into 1,
           failed_start = False\<rparr>,
         pitchShift = \<lparr>sid = 1, pitch = 4, windowSize = 1 / 10, delayTime = 0,
           shift_out = Destination\<rparr>\<rparr>)],
      next_id = 2,
      log = [New_Player 0, New_PitchShift 1 4, Load 0 (Blob 0 True)]\<rparr>"
    by (simp add: eval_defs)
  have a: "audioBlob ?s = Some (Blob 0 True)" by (simp add: s)
  have f: "playRecording ?s 5 = Fulfilled (state_of (playRecording ?s 5))"
    by (simp add: s eval_defs)
  have "map (\<lambda>kc. Start (pid (player (snd kc))) 5) (pitchPlayers (state_of (playRecording ?s 5))) =
      [Start 0 5, Start 2 5]"
    by (simp add: s eval_defs)
  with playRecording_starts_every_chain [OF a f] show ?thesis by simp
qed

section \<open>Ensure and release (C4)\<close>

text \<open>
  C4. Let \<open>s\<close> be the state after any sequence of ensure and release from the empty map.
  \<^item> The offsets with a chain in the map are exactly those the specification calls live,
    with one entry each.
  \<^item> Every chain of the map was created for its key: the creation of its player and of
    its pitch shifter, for that key, are in the log; with a recording, so is the load on
    its player, and the chain holds the recording when that decodes.
  \<^item> Every player was created once at most; every player and every pitch shifter has been
    disposed exactly once if it was created and is no longer in the map, and never
    otherwise.
  \<^item> For an offset \<open>q\<close> with a chain, ensure changes nothing and makes no call, and release
    disposes the player and the pitch shifter of that chain, once each, and deletes the
    entry.
  \<^item> For an offset \<open>q\<close> without a chain, release changes nothing; and with a recording that
    decodes, ensure creates one player and one pitch shifter for \<open>q\<close>, loads and registers
    the chain, and the release that follows leaves the map as it was before the ensure,
    with no entry for \<open>q\<close>; in the log of the whole run the new player is created once
    and the new player and pitch shifter are disposed once each.
\<close>

theorem ensure_release_live_chains:
  "let s = run_registry ab ops in
     fst ` set (pitchPlayers s) = {p. live_spec ops p} \<and>
     distinct (map fst (pitchPlayers s)) \<and>
     (\<forall>(k, c) \<in> set (pitchPlayers s).
        New_Player (pid (player c)) \<in> set (log s) \<and>
        New_PitchShift (sid (pitchShift c)) k \<in> set (log s) \<and>
        pitch (pitchShift c) = k \<and>
        (\<forall>b. ab = Some b \<longrightarrow>
           Load (pid (player c)) b \<in> set (log s) \<and>
           (decodable b \<longrightarrow> buffer (player c) = Some b))) \<and>
     (\<forall>i. count_list (log s) (New_Player i) \<le> 1 \<and>
          count_list (log s) (Dispose_Player i) =
            (if New_Player i \<in> set (log s) \<and> i \<notin> set (player_ids s) then 1 else 0) \<and>
          count_list (log s) (Dispose_PitchShift i) =
            (if (\<exists>k. New_PitchShift i k \<in> set (log s)) \<and> i \<notin> set (shifter_ids s)
             then 1 else 0)) \<and>
     (\<forall>c. map_of (pitchPlayers s) q = Some c \<longrightarrow>
        ensure s q = Fulfilled s \<and>
        release s q =
          Fulfilled (s\<lparr>pitchPlayers := AList.delete q (pitchPlayers s),
             log := log s @ [Dispose_Player (pid (player c)),
                             Dispose_PitchShift (sid (pitchShift c))]\<rparr>)) \<and>
     (map_of (pitchPlayers s) q = None \<longrightarrow>
        release s q = Fulfilled s \<and>
        (\<forall>b. ab = Some b \<and> decodable b \<longrightarrow>
           (let n = next_id s;
                s1 = s\<lparr>pitchPlayers := pitchPlayers s @
                        [(q, \<lparr>player = \<lparr>pid = n, buffer = Some b, out = Into (Suc n),
                                         failed_start = False\<rparr>,
                              pitchShift = \<lparr>sid = Suc n, pitch = q, windowSize = 1 / 10,
                                             delayTime = 0, shift_out = Destination\<rparr>\<rparr>)],
                      next_id := n + 2,
                      log := log s @ [New_Player n, New_PitchShift (Suc n) q, Load n b]\<rparr>;
                s2 = s\<lparr>next_id := n + 2,
                      log := log s @ [New_Player n, New_PitchShift (Suc n) q, Load n b,
                                      Dispose_Player n, Dispose_PitchShift (Suc n)]\<rparr>
            in ensure s q = Fulfilled s1 \<and> release s1 q = Fulfilled s2 \<and>
               count_list (log s2) (New_Player n) = 1 \<and>
               count_list (log s2) (Dispose_Player n) = 1 \<and>
               count_list (log s2) (Dispose_PitchShift (Suc n)) = 1)))"
proof -
  let ?s = "run_registry ab ops"
  have inv: "registry_inv ?s" by (rule registry_inv_run)
  then have d: "distinct (map fst (pitchPlayers ?s))" and m: "inv_made ?s"
    and c: "inv_chains ?s" and n: "inv_count ?s"
    by (simp_all add: registry_inv_def)
  have 1: "fst ` set (pitchPlayers ?s) = {p. live_spec ops p}" by (rule run_registry_live)
  have 3: "\<forall>(k, c) \<in> set (pitchPlayers ?s).
        New_Player (pid (player c)) \<in> set (log ?s) \<and>
        New_PitchShift (sid (pitchShift c)) k \<in> set (log ?s) \<and>
        pitch (pitchShift c) = k \<and>
        (\<forall>b. ab = Some b \<longrightarrow>
           Load (pid (player c)) b \<in> set (log ?s) \<and>
           (decodable b \<longrightarrow> buffer (player c) = Some b))"
  proof (intro ballI, clarify)
    fix k ch
    assume "(k, ch) \<in> set (pitchPlayers ?s)"
    with d have "map_of (pitchPlayers ?s) k = Some ch" by (simp add: map_of_eq_Some_iff)
    with c show "New_Player (pid (player ch)) \<in> set (log ?s) \<and>
        New_PitchShift (sid (pitchShift ch)) k \<in> set (log ?s) \<and>
        pitch (pitchShift ch) = k \<and>
        (\<forall>b. ab = Some b \<longrightarrow>
           Load (pid (player ch)) b \<in> set (log ?s) \<and>
           (decodable b \<longrightarrow> buffer (player ch) = Some b))"
      unfolding inv_chains_def by auto
  qed
  have 4: "\<forall>i. count_list (log ?s) (New_Player i) \<le> 1 \<and>
          count_list (log ?s) (Dispose_Player i) =
            (if New_Player i \<in> set (log ?s) \<and> i \<notin> set (player_ids ?s) then 1 else 0) \<and>
          count_list (log ?s) (Dispose_PitchShift i) =
            (if (\<exists>k. New_PitchShift i k \<in> set (log ?s)) \<and> i \<notin> set (shifter_ids ?s)
             then 1 else 0)"
    using n unfolding inv_count_def
    by (simp add: holds_player_ids [OF d] holds_shifter_ids [OF d])
  have 5: "\<forall>c. map_of (pitchPlayers ?s) q = Some c \<longrightarrow>
        ensure ?s q = Fulfilled ?s \<and>
        release ?s q =
          Fulfilled (?s\<lparr>pitchPlayers := AList.delete q (pitchPlayers ?s),
             log := log ?s @ [Dispose_Player (pid (player c)),
                             Dispose_PitchShift (sid (pitchShift c))]\<rparr>)"
    using release_registry [OF inv] by (simp add: ensure_eq)
  have 6: "map_of (pitchPlayers ?s) q = None \<longrightarrow>
        release ?s q = Fulfilled ?s \<and>
        (\<forall>b. ab = Some b \<and> decodable b \<longrightarrow>
           (let n = next_id ?s;
                s1 = ?s\<lparr>pitchPlayers := pitchPlayers ?s @
                        [(q, \<lparr>player = \<lparr>pid = n, buffer = Some b, out = Into (Suc n),
                                         failed_start = False\<rparr>,
                              pitchShift = \<lparr>sid = Suc n, pitch = q, windowSize = 1 / 10,
                                             delayTime = 0, shift_out = Destination\<rparr>\<rparr>)],
                      next_id := n + 2,
                      log := log ?s @ [New_Player n, New_PitchShift (Suc n) q, Load n b]\<rparr>;
                s2 = ?s\<lparr>next_id := n + 2,
                      log := log ?s @ [New_Player n, New_PitchShift (Suc n) q, Load n b,
                                      Dispose_Player n, Dispose_PitchShift (Suc n)]\<rparr>
            in ensure ?s q = Fulfilled s1 \<and> release s1 q = Fulfilled s2 \<and>
               count_list (log s2) (New_Player n) = 1 \<and>
               count_list (log s2) (Dispose_Player n) = 1 \<and>
               count_list (log s2) (Dispose_PitchShift (Suc n)) = 1))"
  proof (intro impI conjI allI)
    assume absent: "map_of (pitchPlayers ?s) q = None"
    then show "release ?s q = Fulfilled ?s" by (rule release_None)
    fix b
    assume v: "ab = Some b \<and> decodable b"
    let ?n = "next_id ?s"
    from absent have nk: "q \<notin> fst ` set (pitchPlayers ?s)" by (simp add: map_of_eq_None_iff)
    have e: "ensure ?s q = Fulfilled (?s\<lparr>pitchPlayers := pitchPlayers ?s @
         [(q, \<lparr>player = \<lparr>pid = ?n, buffer = Some b, out = Into (Suc ?n),
                          failed_start = False\<rparr>,
               pitchShift = \<lparr>sid = Suc ?n, pitch = q, windowSize = 1 / 10,
                              delayTime = 0, shift_out = Destination\<rparr>\<rparr>)],
       next_id := ?n + 2,
       log := log ?s @ [New_Player ?n, New_PitchShift (Suc ?n) q, Load ?n b]\<rparr>)"
      using v by (intro ensure_absent [OF absent]) simp_all
    have fresh: "New_Player ?n \<notin> set (log ?s)" "\<And>k. New_PitchShift (Suc ?n) k \<notin> set (log ?s)"
      using fresh_not_made [OF m] by simp_all
    from n fresh have zero: "count_list (log ?s) (Dispose_Player ?n) = 0"
      "count_list (log ?s) (Dispose_PitchShift (Suc ?n)) = 0"
      unfolding inv_count_def by simp_all
    from fresh(1) have zn: "count_list (log ?s) (New_Player ?n) = 0" by simp
    show "let n = next_id ?s;
                s1 = ?s\<lparr>pitchPlayers := pitchPlayers ?s @
                        [(q, \<lparr>player = \<lparr>pid = n, buffer = Some b, out = Into (Suc n),
                                         failed_start = False\<rparr>,
                              pitchShift = \<lparr>sid = Suc n, pitch = q, windowSize = 1 / 10,
                                             delayTime = 0, shift_out = Destination\<rparr>\<rparr>)],
                      next_id := n + 2,
                      log := log ?s @ [New_Player n, New_PitchShift (Suc n) q, Load n b]\<rparr>;
                s2 = ?s\<lparr>next_id := n + 2,
                      log := log ?s @ [New_Player n, New_PitchShift (Suc n) q, Load n b,
                                      Dispose_Player n, Dispose_PitchShift (Suc n)]\<rparr>
            in ensure ?s q = Fulfilled s1 \<and> release s1 q = Fulfilled s2 \<and>
               count_list (log s2) (New_Player n) = 1 \<and>
               count_list (log s2) (Dispose_Player n) = 1 \<and>
               count_list (log s2) (Dispose_PitchShift (Suc n)) = 1"
      unfolding Let_def using e zero zn release_last [OF absent, where n = "next_id ?s + 2"]
      by simp
  qed
  from 1 d 3 4 5 6 show ?thesis unfolding Let_def by blast
qed

theorem ensure_release_live_chains_witness:
  "ensure (run_registry (Some (Blob 0 True)) [Ensure 4, Ensure 7, Release 4]) 7 =
     Fulfilled (run_registry (Some (Blob 0 True)) [Ensure 4, Ensure 7, Release 4]) \<and>
   release (run_registry (Some (Blob 0 True)) [Ensure 4, Ensure 7, Release 4]) 5 =
     Fulfilled (run_registry (Some (Blob 0 True)) [Ensure 4, Ensure 7, Release 4]) \<and>
   count_list (log (run_registry (Some (Blob 0 True)) [Ensure 4, Ensure 7, Release 4]))
     (Dispose_Player 0) = 1 \<and>
   count_list (log (run_registry (Some (Blob 0 True)) [Ensure 4, Ensure 7, Release 4]))
     (Dispose_Player 2) = 0 \<and>
   release (state_of (ensure (run_registry (Some (Blob 0 True)) [Ensure 4, Ensure 7, Release 4]) 5)) 5 =
     Fulfilled ((run_registry (Some (Blob 0 True)) [Ensure 4, Ensure 7, Release 4])
       \<lparr>next_id := 6,
        log := [New_Player 0, New_PitchShift 1 4, Load 0 (Blob 0 True),
                New_Player 2, New_PitchShift 3 7, Load 2 (Blob 0 True),
                Dispose_Player 0, Dispose_PitchShift 1,
                New_Player 4, New_PitchShift 5 5, Load 4 (Blob 0 True),
                Dispose_Player 4, Dispose_PitchShift 5]\<rparr>)"
proof -
  let ?s = "run_registry (Some (Blob 0 True)) [Ensure 4, Ensure 7, Release 4]"
  have s: "?s = \<lparr>isRecording = False, audioBlob = Some (Blob 0 True), activePitches = [0],
      pitchPlayers = [(7, \<lparr>player = \<lparr>pid = 2, buffer = Some (Blob 0 True), out = Into 3,
           failed_start = False\<rparr>,
         pitchShift = \<lparr>sid = 3, pitch = 7, windowSize = 1 / 10, delayTime = 0,
           shift_out = Destination\<rparr>\<rparr>)],
      next_id = 4,
      log = [New_Player 0, New_PitchShift 1 4, Load 0 (Blob 0 True),
             New_Player 2, New_PitchShift 3 7, Load 2 (Blob 0 True),
             Dispose_Player 0, Dispose_PitchShift 1]\<rparr>"
    by (simp add: run_registry_def eval_defs release_def)
  have present: "map_of (pitchPlayers ?s) 7 \<noteq> None" by (simp add: s)
  have absent: "map_of (pitchPlayers ?s) 5 = None" by (simp add: s)
  have ids: "player_ids ?s = [2]" by (simp add: s player_ids_def)
  from ensure_release_live_chains [of "Some (Blob 0 True)" "[Ensure 4, Ensure 7, Release 4]" 7]
    present
  have 1: "ensure ?s 7 = Fulfilled ?s" unfolding Let_def by blast
  from ensure_release_live_chains [of "Some (Blob 0 True)" "[Ensure 4, Ensure 7, Release 4]" 5]
    absent
  have 2: "release ?s 5 = Fulfilled ?s" unfolding Let_def by blast
  from ensure_release_live_chains [of "Some (Blob 0 True)" "[Ensure 4, Ensure 7, Release 4]" 5]
  have "\<forall>i. count_list (log ?s) (Dispose_Player i) =
      (if New_Player i \<in> set (log ?s) \<and> i \<notin> set (player_ids ?s) then 1 else 0)"
    unfolding Let_def by blast
  then have c: "count_list (log ?s) (Dispose_Player 0) =
        (if New_Player 0 \<in> set (log ?s) \<and> 0 \<notin> set (player_ids ?s) then 1 else 0)"
      "count_list (log ?s) (Dispose_Player 2) =
        (if New_Player 2 \<in> set (log ?s) \<and> 2 \<notin> set (player_ids ?s) then 1 else 0)"
    by blast+
  have 3: "count_list (log ?s) (Dispose_Player 0) = 1" unfolding c(1) ids by (simp add: s)
  have 4: "count_list (log ?s) (Dispose_Player 2) = 0" unfolding c(2) ids by (simp add: s)
  from ensure_release_live_chains [of "Some (Blob 0 True)" "[Ensure 4, Ensure 7, Release 4]" 5]
    absent
  have "let n = next_id ?s;
            s1 = ?s\<lparr>pitchPlayers := pitchPlayers ?s @
                    [(5, \<lparr>player = \<lparr>pid = n, buffer = Some (Blob 0 True), out = Into (Suc n),
                                     failed_start = False\<rparr>,
                          pitchShift = \<lparr>sid = Suc n, pitch = 5, windowSize = 1 / 10,
                                         delayTime = 0, shift_out = Destination\<rparr>\<rparr>)],
                  next_id := n + 2,
                  log := log ?s @ [New_Player n, New_PitchShift (Suc n) 5, Load n (Blob 0 True)]\<rparr>;
            s2 = ?s\<lparr>next_id := n + 2,
                  log := log ?s @ [New_Player n, New_PitchShift (Suc n) 5, Load n (Blob 0 True),
                                  Dispose_Player n, Dispose_PitchShift (Suc n)]\<rparr>
        in ensure ?s 5 = Fulfilled s1 \<and> release s1 5 = Fulfilled s2"
    unfolding Let_def by simp
  then have 5: "release (state_of (ensure ?s 5)) 5 =
      Fulfilled (?s\<lparr>next_id := next_id ?s + 2,
         log := log ?s @ [New_Player (next_id ?s), New_PitchShift (Suc (next_id ?s)) 5,
                          Load (next_id ?s) (Blob 0 True),
                          Dispose_Player (next_id ?s), Dispose_PitchShift (Suc (next_id ?s))]\<rparr>)"
    unfolding Let_def by simp
  have n: "next_id ?s = 4" by (simp add: s)
  have l: "log ?s = [New_Player 0, New_PitchShift 1 4, Load 0 (Blob 0 True),
             New_Player 2, New_PitchShift 3 7, Load 2 (Blob 0 True),
             Dispose_Player 0, Dispose_PitchShift 1]" by (simp add: s)
  from 5 have 6: "release (state_of (ensure ?s 5)) 5 =
     Fulfilled (?s\<lparr>next_id := 6,
        log := [New_Player 0, New_PitchShift 1 4, Load 0 (Blob 0 True),
                New_Player 2, New_PitchShift 3 7, Load 2 (Blob 0 True),
                Dispose_Player 0, Dispose_PitchShift 1,
                New_Player 4, New_PitchShift 5 5, Load 4 (Blob 0 True),
                Dispose_Player 4, Dispose_PitchShift 5]\<rparr>)"
    unfolding n l by simp
  from 1 2 3 4 6 show ?thesis by blast
qed

section \<open>Interval classification (C5)\<close>

text \<open>
  C5. The classification is a function of the offset alone (\<^const>\<open>getIntervalStyle\<close> has
  no other argument and reads no state), and on the grid from -12 to 12 it is exact: the
  original pitch for 0, a perfect consonance exactly for the absolute values 4, 7 and 12,
  an imperfect consonance exactly for 3, 5, 8 and 9, and a dissonance exactly for the
  rest, which are 1, 2, 6, 10 and 11.
\<close>

theorem getIntervalStyle_classes:
  "- 12 \<le> p \<and> p \<le> 12 \<longrightarrow>
     (class_of_style (getIntervalStyle p) = Some Original \<longleftrightarrow> p = 0) \<and>
     (class_of_style (getIntervalStyle p) = Some Perfect_consonance \<longleftrightarrow> \<bar>p\<bar> \<in> {4, 7, 12}) \<and>
     (class_of_style (getIntervalStyle p) = Some Imperfect_consonance \<longleftrightarrow> \<bar>p\<bar> \<in> {3, 5, 8, 9}) \<and>
     (class_of_style (getIntervalStyle p) = Some Dissonant \<longleftrightarrow> \<bar>p\<bar> \<in> {1, 2, 6, 10, 11})"
  by (simp add: getIntervalStyle_def class_of_style_def Let_def) arith

theorem getIntervalStyle_classes_witness:
  "class_of_style (getIntervalStyle (- 7)) = Some Perfect_consonance \<and>
   class_of_style (getIntervalStyle 6) = Some Dissonant \<and>
   class_of_style (getIntervalStyle 0) = Some Original \<and>
   class_of_style (getIntervalStyle 9) = Some Imperfect_consonance"
  using getIntervalStyle_classes [of "- 7"] getIntervalStyle_classes [of 6]
    getIntervalStyle_classes [of 0] getIntervalStyle_classes [of 9]
  by simp

section \<open>Toggling twice (C6)\<close>

text \<open>
  C6 says that two toggles of one offset in a row restore the selection. The code departs
  from it when the load of a chain is rejected. \<^verbatim>\<open>setupPitchPlayer\<close> stores the chain
  (line 118) before it awaits the load (line 122) and nothing removes the chain when the
  load is rejected; the selection is written by the last statement of \<^verbatim>\<open>togglePitch\<close>
  (line 104), which the rejection skips. After a capture that does not decode, with 0
  selected: the first toggle of 3 is rejected, the chain for 3 stored and the selection
  unchanged; the second toggle finds the chain, skips the set-up and adds 3. The selection
  was 0 alone before the two toggles and is 0 and 3 after them. (Two toggles that are both
  fulfilled restore the selection: \<open>completed_toggles_restore\<close>.)
\<close>

theorem togglePitch_twice_rejected_load:
  "activePitches (run App_init [StartRecording True, StopRecording (Blob 0 False)]) = [0] \<and>
   togglePitch (run App_init [StartRecording True, StopRecording (Blob 0 False)]) 3 =
     Rejected LoadError
       \<lparr>isRecording = False, audioBlob = Some (Blob 0 False), activePitches = [0],
        pitchPlayers = [(3, \<lparr>player = \<lparr>pid = 0, buffer = None, out = Into 1,
             failed_start = False\<rparr>,
           pitchShift = \<lparr>sid = 1, pitch = 3, windowSize = 1 / 10, delayTime = 0,
             shift_out = Destination\<rparr>\<rparr>)],
        next_id = 2,
        log = [New_Player 0, New_PitchShift 1 3, Load 0 (Blob 0 False)]\<rparr> \<and>
   activePitches (run App_init
     [StartRecording True, StopRecording (Blob 0 False), TogglePitch 3, TogglePitch 3]) = [0, 3]"
  by (simp add: eval_defs)

section \<open>Play with an empty selection (C7)\<close>

text \<open>
  C7 says that play with an empty selection makes no start call and does not fail, in
  every state reached by toggles and plays. The code departs from it after a rejected
  load, for the reason given with C6: the chain stored at line 118 stays in the map of an
  offset that is not selected, and the second loop of \<^verbatim>\<open>playRecording\<close> (lines 144 to
  146) starts every chain of the map, selected or not. After a capture that does not
  decode, toggling 0 off and 3 on leaves the selection empty and the unloaded chain for 3
  in the map; play then calls start on its player and is rejected. (When every captured
  recording decodes, the keys of the map are selected offsets and play with an empty
  selection is fulfilled without a start: \<open>runs_with_decodable_captures\<close>.)
\<close>

theorem playRecording_empty_selection_rejected_load:
  "activePitches (run App_init
     [StartRecording True, StopRecording (Blob 0 False), TogglePitch 0, TogglePitch 3]) = [] \<and>
   playRecording (run App_init
     [StartRecording True, StopRecording (Blob 0 False), TogglePitch 0, TogglePitch 3]) 5 =
   Rejected NotLoadedError
     \<lparr>isRecording = False, audioBlob = Some (Blob 0 False), activePitches = [],
      pitchPlayers = [(3, \<lparr>player = \<lparr>pid = 0, buffer = None, out = Into 1,
           failed_start = True\<rparr>,
         pitchShift = \<lparr>sid = 1, pitch = 3, windowSize = 1 / 10, delayTime = 0,
           shift_out = Destination\<rparr>\<rparr>)],
      next_id = 2,
      log = [New_Player 0, New_PitchShift 1 3, Load 0 (Blob 0 False), Tone_start, Tone_now 5,
        Start 0 5]\<rparr>"
  by (simp add: eval_defs)

section \<open>The major triad scenario (C8)\<close>

text \<open>
  C8 says that after a capture, activating 4 and 7 and playing leaves exactly two chains,
  for 4 and 7. The selection starts as the set of 0 alone (line 8), so play also creates
  a chain for 0: the map has three keys.
\<close>

theorem major_triad_scenario_counterexample:
  "fst ` set (pitchPlayers (run App_init [StartRecording True, StopRecording (Blob 0 True),
      TogglePitch 4, TogglePitch 7, PlayRecording 5])) \<noteq> {4, 7}"
proof -
  have "(0::int) \<in> {4, 7, 0}" by simp
  moreover have "(0::int) \<notin> {4, 7}" by simp
  ultimately have "{4, 7, 0} \<noteq> {4, 7::int}" by metis
  then show ?thesis by (simp add: eval_defs)
qed

text \<open>
  C8, as the code has it. After a capture that decodes, activating 4 and 7 and playing
  leaves one chain for each selected offset, and the start calls of the run are one per
  chain with the one time of the play request. From the initial selection these are three
  chains, for 4, 7 and 0; they are the two chains for 4 and 7, with none for 0, when 0 was
  toggled off before.
\<close>

theorem major_triad_scenario:
  "decodable b \<longrightarrow>
     (let s = run App_init [StartRecording True, StopRecording b, TogglePitch 4, TogglePitch 7,
                PlayRecording t]
      in activePitches s = [0, 4, 7] \<and> map fst (pitchPlayers s) = [4, 7, 0] \<and>
         map (\<lambda>kc. pid (player (snd kc))) (pitchPlayers s) = [0, 2, 4] \<and>
         filter is_Start (log s) = [Start 0 t, Start 2 t, Start 4 t]) \<and>
     (let s = run App_init [StartRecording True, StopRecording b, TogglePitch 0, TogglePitch 4,
                TogglePitch 7, PlayRecording t]
      in activePitches s = [4, 7] \<and> map fst (pitchPlayers s) = [4, 7] \<and>
         map (\<lambda>kc. pid (player (snd kc))) (pitchPlayers s) = [0, 2] \<and>
         filter is_Start (log s) = [Start 0 t, Start 2 t])"
  by (simp add: eval_defs Let_def)

theorem major_triad_scenario_witness:
  "map fst (pitchPlayers (run App_init [StartRecording True, StopRecording (Blob 0 True),
      TogglePitch 4, TogglePitch 7, PlayRecording 5])) = [4, 7, 0] \<and>
   filter is_Start (log (run App_init [StartRecording True, StopRecording (Blob 0 True),
      TogglePitch 0, TogglePitch 4, TogglePitch 7, PlayRecording 5])) = [Start 0 5, Start 2 5]"
  using major_triad_scenario [of "Blob 0 True" 5] by (simp add: Let_def)

section \<open>A dispose while the load is pending (C9)\<close>



section \<open>The invariant of the player map (C10)\<close>

text \<open>
  C10 says that after every sequence of toggles and plays the keys of the player map are
  selected offsets, one chain per offset, each made for its key. The last two hold in
  every run (\<open>keyed_run\<close>). The code departs from the first after a rejected load, for the
  reason given with C6: the chain is stored (line 118) before the load is awaited, nothing
  removes it when the load is rejected, and the selection is written only at line 104.
  After a capture that does not decode and one toggle of 3, the map has the key 3 and the
  selection is still 0 alone. (When every captured recording decodes, the keys of the map
  are selected offsets: \<open>runs_with_decodable_captures\<close>.)
\<close>

theorem registry_invariant_rejected_load:
  "map fst (pitchPlayers (run App_init
     [StartRecording True, StopRecording (Blob 0 False), TogglePitch 3])) = [3] \<and>
   activePitches (run App_init
     [StartRecording True, StopRecording (Blob 0 False), TogglePitch 3]) = [0]"
  by (simp add: eval_defs)

end
